theory Spec2Isabelle
  imports Complex_Main "HOL-Library.AList"
begin

section \<open>Strings and JSON values\<close>

text \<open>
  The program is \<^verbatim>\<open>src/mau_scraper_v2.py\<close>. Python strings are modelled as
  \<^typ>\<open>string\<close>, and the model is one of ASCII text: the case mappings act on the
  letters \<open>A\<close>..\<open>Z\<close> and \<open>a\<close>..\<open>z\<close>, a digit is one of \<open>0\<close>..\<open>9\<close>, and white space is
  what \<^verbatim>\<open>str.isspace\<close> and the regular-expression class \<^verbatim>\<open>\s\<close> accept below
  code point 128 (tab, line feed, vertical tab, form feed, carriage return, the four
  separators \<open>0x1C\<close>..\<open>0x1F\<close> and the space).

  On ASCII text these definitions are what Python computes. Beyond it they are not:
  Python's classes, case mappings and \<^verbatim>\<open>int\<close> know the whole of Unicode (the
  no-break space is white space, an accented letter is a word character and has a case,
  other scripts have digits), and a \<^typ>\<open>string\<close> cannot even carry most of those
  characters. The predicate \<open>ascii\<close> says that a string is ASCII text; the general
  statements below about the time field, the verifier and the idempotence of the
  sanitizer are made for ASCII text only and say nothing about other text.
\<close>

definition ascii :: "string \<Rightarrow> bool" where
  "ascii s = list_all (\<lambda>c. \<not> digit7 c) s"

definition is_space :: "char \<Rightarrow> bool" where
  "is_space c = (c \<in> set [CHR 0x09, CHR 0x0A, CHR 0x0B, CHR 0x0C, CHR 0x0D,
                           CHR 0x1C, CHR 0x1D, CHR 0x1E, CHR 0x1F, CHR 0x20])"

definition is_digit :: "char \<Rightarrow> bool" where
  "is_digit c = (c \<in> set ''0123456789'')"

definition ascii_uppercase :: string where
  "ascii_uppercase = ''ABCDEFGHIJKLMNOPQRSTUVWXYZ''"

definition ascii_lowercase :: string where
  "ascii_lowercase = ''abcdefghijklmnopqrstuvwxyz''"

definition is_lower :: "char \<Rightarrow> bool" where
  "is_lower c = (c \<in> set ascii_lowercase)"

definition is_upper :: "char \<Rightarrow> bool" where
  "is_upper c = (c \<in> set ascii_uppercase)"

text \<open>A word character of the class \<^verbatim>\<open>\w\<close>: a letter, a digit or the underscore.\<close>

definition is_word_char :: "char \<Rightarrow> bool" where
  "is_word_char c = (is_lower c \<or> is_upper c \<or> is_digit c \<or> c = CHR ''_'')"

definition lower_char :: "char \<Rightarrow> char" where
  "lower_char c = (case map_of (zip ascii_uppercase ascii_lowercase) c of
                     Some d \<Rightarrow> d | None \<Rightarrow> c)"

definition upper_char :: "char \<Rightarrow> char" where
  "upper_char c = (case map_of (zip ascii_lowercase ascii_uppercase) c of
                     Some d \<Rightarrow> d | None \<Rightarrow> c)"

text \<open>\<^verbatim>\<open>str.lower\<close>, \<^verbatim>\<open>str.upper\<close>, \<^verbatim>\<open>str.strip\<close>.\<close>

definition lower :: "string \<Rightarrow> string" where
  "lower s = map lower_char s"

definition upper :: "string \<Rightarrow> string" where
  "upper s = map upper_char s"

definition strip :: "string \<Rightarrow> string" where
  "strip s = rev (dropWhile is_space (rev (dropWhile is_space s)))"

text \<open>
  \<^verbatim>\<open>str.title\<close>: a letter that follows a letter is lowered, any other letter is
  raised, everything else is kept. The flag says whether the previous character was a
  letter.
\<close>

fun title_from :: "bool \<Rightarrow> string \<Rightarrow> string" where
  "title_from prev [] = []"
| "title_from prev (c # cs) =
     (if is_lower c \<or> is_upper c
      then (if prev then lower_char c else upper_char c) # title_from True cs
      else c # title_from False cs)"

definition title :: "string \<Rightarrow> string" where
  "title s = title_from False s"

text \<open>\<^verbatim>\<open>s.startswith(w)\<close> and the substring test \<^verbatim>\<open>w in s\<close>.\<close>

fun starts_with :: "string \<Rightarrow> string \<Rightarrow> bool" where
  "starts_with [] s = True"
| "starts_with (a # w) [] = False"
| "starts_with (a # w) (c # cs) = (a = c \<and> starts_with w cs)"

fun is_substring :: "string \<Rightarrow> string \<Rightarrow> bool" where
  "is_substring w [] = (w = [])"
| "is_substring w (c # cs) = (starts_with w (c # cs) \<or> is_substring w cs)"

text \<open>\<^verbatim>\<open>s.replace(a, b)\<close> for a single character \<open>a\<close>.\<close>

definition replace_char :: "char \<Rightarrow> string \<Rightarrow> string \<Rightarrow> string" where
  "replace_char a b s = concat (map (\<lambda>c. if c = a then b else [c]) s)"

text \<open>
  \<^verbatim>\<open>int(s)\<close> for a string of decimal digits, the only arguments the program
  passes (each one is a group matched by \<^verbatim>\<open>\d{..}\<close>), and the formatting
  \<^verbatim>\<open>f"{n:02d}"\<close> of a natural number: its decimal digits, padded with a zero to two
  places.
\<close>

definition digit_val :: "char \<Rightarrow> nat" where
  "digit_val c = (case map_of (zip ''0123456789'' [0, 1, 2, 3, 4, 5, 6, 7, 8, 9]) c of
                    Some d \<Rightarrow> d | None \<Rightarrow> 0)"

definition int_of_digits :: "string \<Rightarrow> nat" where
  "int_of_digits s = foldl (\<lambda>a c. 10 * a + digit_val c) 0 s"

definition digit_char :: "nat \<Rightarrow> char" where
  "digit_char d = ''0123456789'' ! d"

fun str_nat :: "nat \<Rightarrow> string" where
  "str_nat n = (if n < 10 then [digit_char n] else str_nat (n div 10) @ [digit_char (n mod 10)])"

declare str_nat.simps [simp del]

definition fmt02d :: "nat \<Rightarrow> string" where
  "fmt02d n = (if n < 10 then CHR ''0'' # str_nat n else str_nat n)"

text \<open>
  The value of a field, as \<^verbatim>\<open>json.loads\<close> builds it: \<^verbatim>\<open>None\<close>, a boolean, an
  integer, a float (only its being zero is ever looked at), a string, a list or a
  dictionary. A record is a dictionary from field names to values, kept in insertion
  order.
\<close>

datatype jval =
    JNull
  | JBool bool
  | JInt int
  | JFloat rat
  | JStr string
  | JList "jval list"
  | JDict "(string \<times> jval) list"

type_synonym call = "(string \<times> jval) list"

datatype py_error = AttributeError | TypeError

text \<open>\<^verbatim>\<open>call.get(key)\<close> (\<^verbatim>\<open>None\<close> for a missing key) and \<^verbatim>\<open>call[key] = v\<close>.\<close>

definition get :: "call \<Rightarrow> string \<Rightarrow> jval" where
  "get c k = (case map_of c k of None \<Rightarrow> JNull | Some v \<Rightarrow> v)"

definition put :: "string \<Rightarrow> jval \<Rightarrow> call \<Rightarrow> call" where
  "put k v c = AList.update k v c"

text \<open>The field \<open>k\<close> of a record is not a string, or it is a string of ASCII text.\<close>

definition ascii_field :: "call \<Rightarrow> string \<Rightarrow> bool" where
  "ascii_field c k = (case get c k of JStr s \<Rightarrow> ascii s | _ \<Rightarrow> True)"

text \<open>A value that is null or a string of ASCII text.\<close>

definition ascii_text_or_null :: "jval \<Rightarrow> bool" where
  "ascii_text_or_null v = (case v of JNull \<Rightarrow> True | JStr s \<Rightarrow> ascii s | _ \<Rightarrow> False)"

text \<open>Every string that is the value of a field of the record is ASCII text.\<close>

definition ascii_record :: "call \<Rightarrow> bool" where
  "ascii_record c = list_all (\<lambda>(k, v). case v of JStr s \<Rightarrow> ascii s | _ \<Rightarrow> True) c"

text \<open>Truth value of a Python object, as \<^verbatim>\<open>if x\<close>, \<^verbatim>\<open>x or y\<close> and \<^verbatim>\<open>x and y\<close> read it.\<close>

fun truthy :: "jval \<Rightarrow> bool" where
  "truthy JNull = False"
| "truthy (JBool b) = b"
| "truthy (JInt i) = (i \<noteq> 0)"
| "truthy (JFloat r) = (r \<noteq> 0)"
| "truthy (JStr s) = (s \<noteq> [])"
| "truthy (JList xs) = (xs \<noteq> [])"
| "truthy (JDict kvs) = (kvs \<noteq> [])"

text \<open>Lists and dictionaries cannot be hashed: looking one up in a set or dictionary raises.\<close>

fun hashable :: "jval \<Rightarrow> bool" where
  "hashable (JList xs) = False"
| "hashable (JDict kvs) = False"
| "hashable v = True"

section \<open>The sanitizer\<close>

text \<open>
  The tables of the sanitizer. A Python set is written as the list of its elements in
  source order, a dictionary as the list of its items in insertion order.
\<close>

definition VALID_TONES :: "string list" where
  "VALID_TONES =
    [''scared'', ''calm'', ''nostalgic'', ''humorous'', ''matter-of-fact'', ''emotional'']"

definition VALID_ENTITY_LABELS :: "string list" where
  "VALID_ENTITY_LABELS =
    [''Bigfoot/Sasquatch'', ''Dogman'', ''Mothman'', ''Skinwalker'', ''Wendigo'',
     ''Thunderbird'', ''Crawler/Rake'', ''Chupacabra'', ''Mutant Canine/Turner Beast'',
     ''Lake Monster'', ''Black-Eyed Kids (BEK)'', ''Not Deer'', ''Goatman'',
     ''Jersey Devil'', ''Unknown Cryptid'', ''Ghost/Apparition'', ''Shadow Person'',
     ''Hat Man'', ''Old Hag'', ''Poltergeist'', ''Demonic Entity'',
     ''Angel/Positive Spirit'', ''Doppelganger'', ''Residual Haunting'',
     ''Intelligent Haunting'', ''Portal/Vortex'', ''Afterlife Communication (ADC)'',
     ''Sleep Paralysis Entity'', ''UFO/UAP'', ''Black Triangle'', ''Orb/Light'',
     ''Fireball'', ''Phantom Lights'', ''Abduction'', ''Alien Entity'',
     ''Satellite/Rocket (Explained)'', ''Missing Time'', ''Glitch in the Matrix'',
     ''Time Slip'', ''Premonition/Precognition'', ''Telepathy'', ''Psychic Experience'',
     ''Astral Projection'', ''Aura/Energy'', ''Synchronicity'', ''Men in Black'',
     ''Phantom Person'', ''Vanishing Object'', ''Dime/Coin from the Dead'',
     ''Phantom Sound'', ''Phantom Smell'', ''Unexplained Animal Behavior'',
     ''Electronic Malfunction'', ''Temperature Anomaly'', ''Coincidence'',
     ''Unidentified Animal'', ''Explained (mundane)'', ''Dream/Vision'', ''Curse/Hex'',
     ''Fairy/Fae'', ''Humanoid (unclassified)'', ''Other'']"

definition NULL_STRINGS :: "string list" where
  "NULL_STRINGS =
    [''na'', ''n/a'', ''none'', ''null'', ''unknown'', ''unclear'', ''unspecified'',
     ''parts unknown'', ''anonymous'', '''', ''not mentioned'', ''not specified'']"

definition STATE_ABBREV_TO_FULL :: "(string \<times> string) list" where
  "STATE_ABBREV_TO_FULL =
    [(''AL'', ''Alabama''), (''AK'', ''Alaska''), (''AZ'', ''Arizona''),
     (''AR'', ''Arkansas''), (''CA'', ''California''), (''CO'', ''Colorado''),
     (''CT'', ''Connecticut''), (''DE'', ''Delaware''), (''FL'', ''Florida''),
     (''GA'', ''Georgia''), (''HI'', ''Hawaii''), (''ID'', ''Idaho''),
     (''IL'', ''Illinois''), (''IN'', ''Indiana''), (''IA'', ''Iowa''),
     (''KS'', ''Kansas''), (''KY'', ''Kentucky''), (''LA'', ''Louisiana''),
     (''ME'', ''Maine''), (''MD'', ''Maryland''), (''MA'', ''Massachusetts''),
     (''MI'', ''Michigan''), (''MN'', ''Minnesota''), (''MS'', ''Mississippi''),
     (''MO'', ''Missouri''), (''MT'', ''Montana''), (''NE'', ''Nebraska''),
     (''NV'', ''Nevada''), (''NH'', ''New Hampshire''), (''NJ'', ''New Jersey''),
     (''NM'', ''New Mexico''), (''NY'', ''New York''), (''NC'', ''North Carolina''),
     (''ND'', ''North Dakota''), (''OH'', ''Ohio''), (''OK'', ''Oklahoma''),
     (''OR'', ''Oregon''), (''PA'', ''Pennsylvania''), (''RI'', ''Rhode Island''),
     (''SC'', ''South Carolina''), (''SD'', ''South Dakota''), (''TN'', ''Tennessee''),
     (''TX'', ''Texas''), (''UT'', ''Utah''), (''VT'', ''Vermont''),
     (''VA'', ''Virginia''), (''WA'', ''Washington''), (''WV'', ''West Virginia''),
     (''WI'', ''Wisconsin''), (''WY'', ''Wyoming''), (''DC'', ''District of Columbia'')]"

definition STATE_ALIASES :: "(string \<times> string) list" where
  "STATE_ALIASES =
    [(''cali'', ''California''), (''socal'', ''California''), (''norcal'', ''California''),
     (''mass'', ''Massachusetts''), (''mich'', ''Michigan''), (''minn'', ''Minnesota''),
     (''penn'', ''Pennsylvania''), (''tenn'', ''Tennessee''), (''wisc'', ''Wisconsin''),
     (''conn'', ''Connecticut''), (''wash'', ''Washington''), (''ore'', ''Oregon''),
     (''okla'', ''Oklahoma''), (''mont'', ''Montana''), (''miss'', ''Mississippi''),
     (''ala'', ''Alabama''), (''ariz'', ''Arizona''), (''ark'', ''Arkansas''),
     (''colo'', ''Colorado''), (''dela'', ''Delaware''), (''fla'', ''Florida''),
     (''ind'', ''Indiana''), (''neb'', ''Nebraska''), (''nev'', ''Nevada'')]"

definition TIME_WORD_MAP :: "(string \<times> string) list" where
  "TIME_WORD_MAP =
    [(''midnight'', ''00:00''), (''middle of the night'', ''03:00''),
     (''pre-dawn'', ''04:00''), (''predawn'', ''04:00''), (''early morning'', ''05:00''),
     (''dawn'', ''06:00''), (''sunrise'', ''06:00''), (''morning'', ''08:00''),
     (''mid-morning'', ''10:00''), (''noon'', ''12:00''), (''midday'', ''12:00''),
     (''afternoon'', ''14:00''), (''late afternoon'', ''16:00''), (''dusk'', ''19:00''),
     (''sunset'', ''19:00''), (''twilight'', ''19:00''), (''evening'', ''20:00''),
     (''night'', ''21:00''), (''nighttime'', ''21:00''), (''late night'', ''23:00''),
     (''late at night'', ''23:00'')]"

definition US_REGIONS :: "(string \<times> string) list" where
  "US_REGIONS =
    [(''Connecticut'', ''Northeast''), (''Maine'', ''Northeast''),
     (''Massachusetts'', ''Northeast''), (''New Hampshire'', ''Northeast''),
     (''Rhode Island'', ''Northeast''), (''Vermont'', ''Northeast''),
     (''New Jersey'', ''Northeast''), (''New York'', ''Northeast''),
     (''Pennsylvania'', ''Northeast''), (''Alabama'', ''Southeast''),
     (''Arkansas'', ''Southeast''), (''Delaware'', ''Southeast''),
     (''Florida'', ''Southeast''), (''Georgia'', ''Southeast''),
     (''Kentucky'', ''Southeast''), (''Louisiana'', ''Southeast''),
     (''Maryland'', ''Southeast''), (''Mississippi'', ''Southeast''),
     (''North Carolina'', ''Southeast''), (''Oklahoma'', ''Southeast''),
     (''South Carolina'', ''Southeast''), (''Tennessee'', ''Southeast''),
     (''Texas'', ''Southeast''), (''Virginia'', ''Southeast''),
     (''West Virginia'', ''Southeast''), (''Illinois'', ''Midwest''),
     (''Indiana'', ''Midwest''), (''Iowa'', ''Midwest''), (''Kansas'', ''Midwest''),
     (''Michigan'', ''Midwest''), (''Minnesota'', ''Midwest''),
     (''Missouri'', ''Midwest''), (''Nebraska'', ''Midwest''),
     (''North Dakota'', ''Midwest''), (''Ohio'', ''Midwest''),
     (''South Dakota'', ''Midwest''), (''Wisconsin'', ''Midwest''), (''Alaska'', ''West''),
     (''Arizona'', ''West''), (''California'', ''West''), (''Colorado'', ''West''),
     (''Hawaii'', ''West''), (''Idaho'', ''West''), (''Montana'', ''West''),
     (''Nevada'', ''West''), (''New Mexico'', ''West''), (''Oregon'', ''West''),
     (''Utah'', ''West''), (''Washington'', ''West''), (''Wyoming'', ''West'')]"

definition tone_map :: "(string \<times> string) list" where
  "tone_map =
    [(''frightened'', ''scared''), (''terrified'', ''scared''), (''afraid'', ''scared''),
     (''anxious'', ''scared''), (''nervous'', ''scared''), (''uneasy'', ''scared''),
     (''relaxed'', ''calm''), (''composed'', ''calm''), (''neutral'', ''calm''),
     (''sentimental'', ''nostalgic''), (''wistful'', ''nostalgic''),
     (''reflective'', ''nostalgic''), (''funny'', ''humorous''),
     (''joking'', ''humorous''), (''lighthearted'', ''humorous''),
     (''factual'', ''matter-of-fact''), (''matter of fact'', ''matter-of-fact''),
     (''deadpan'', ''matter-of-fact''), (''dry'', ''matter-of-fact''),
     (''upset'', ''emotional''), (''tearful'', ''emotional''), (''crying'', ''emotional''),
     (''excited'', ''emotional''), (''passionate'', ''emotional''),
     (''moved'', ''emotional'')]"

text \<open>
  The first loop of \<^verbatim>\<open>_sanitize_call\<close>: a string that is a null sentinel once
  trimmed and lowered becomes \<^verbatim>\<open>None\<close>. \<open>null_step\<close> is the body of the loop
  for one key; the same test is then run on \<^verbatim>\<open>caller_name\<close>.
\<close>

definition null_keys :: "string list" where
  "null_keys =
    [''state_or_region'', ''city'', ''country'', ''call_type_secondary'', ''date_of_event'',
     ''time_of_event'', ''setting'', ''derek_commentary'', ''caller_intro_snippet'']"

definition null_step :: "call \<Rightarrow> string \<Rightarrow> call" where
  "null_step c key =
     (case get c key of
        JStr val \<Rightarrow> if lower (strip val) \<in> set NULL_STRINGS then put key JNull c else c
      | _ \<Rightarrow> c)"

definition null_normalize :: "call \<Rightarrow> call" where
  "null_normalize c = foldl null_step c null_keys"

definition name_normalize :: "call \<Rightarrow> call" where
  "name_normalize c = null_step c ''caller_name''"

text \<open>State normalization: abbreviations and aliases become the full name.\<close>

definition state_normalize :: "call \<Rightarrow> call" where
  "state_normalize c =
     (case get c ''state_or_region'' of
        JStr state \<Rightarrow>
          (let s = strip state; upper_s = upper s; lower_s = lower s in
           case map_of STATE_ABBREV_TO_FULL upper_s of
             Some full \<Rightarrow> put ''state_or_region'' (JStr full) c
           | None \<Rightarrow>
              (case map_of STATE_ALIASES lower_s of
                 Some full \<Rightarrow> put ''state_or_region'' (JStr full) c
               | None \<Rightarrow>
                  if lower_s \<in> set NULL_STRINGS then put ''state_or_region'' JNull c
                  else put ''state_or_region''
                         (JStr (if s = lower s \<or> s = upper s then title s else s)) c))
      | _ \<Rightarrow> c)"

text \<open>
  Country: \<^verbatim>\<open>if call.get("state_or_region") and call["state_or_region"] in US_REGIONS\<close>.
  The membership test hashes the value, which raises for a list or a dictionary.
\<close>

definition country_stage :: "call \<Rightarrow> py_error + call" where
  "country_stage c =
     (let v = get c ''state_or_region'' in
      if truthy v then
        (if \<not> hashable v then Inl TypeError
         else if (case v of JStr s \<Rightarrow> s \<in> set (map fst US_REGIONS) | _ \<Rightarrow> False)
              then Inr (put ''country'' (JStr ''USA'') c)
              else Inr c)
      else Inr c)"

text \<open>
  The loop \<^verbatim>\<open>for label in VALID_ENTITY_LABELS: if label.lower() == ct.lower(): ...\<close>
  with its \<^verbatim>\<open>break\<close>: the first label that agrees with \<open>ct\<close> up to case.
\<close>

definition match_label :: "string \<Rightarrow> string option" where
  "match_label ct = find (\<lambda>label. lower label = lower ct) VALID_ENTITY_LABELS"

text \<open>
  \<^verbatim>\<open>call_type\<close>: \<^verbatim>\<open>ct = call.get("call_type") or ""\<close>. The membership test
  raises for an unhashable value; for any other value that is not a string the first
  iteration of the loop calls \<^verbatim>\<open>ct.lower()\<close>, which raises.
\<close>

definition call_type_stage :: "call \<Rightarrow> py_error + call" where
  "call_type_stage c =
     (let v = get c ''call_type''; ct = (if truthy v then v else JStr []) in
      if \<not> hashable ct then Inl TypeError
      else case ct of
        JStr s \<Rightarrow>
          if s \<in> set VALID_ENTITY_LABELS then Inr c
          else if s \<noteq> [] then
            (case match_label s of
               Some label \<Rightarrow> Inr (put ''call_type'' (JStr label) c)
             | None \<Rightarrow> Inr (put ''call_type'' (JStr ''Other'') c))
          else Inr (put ''call_type'' (JStr ''Other'') c)
      | _ \<Rightarrow> Inl AttributeError)"

definition secondary_stage :: "call \<Rightarrow> py_error + call" where
  "secondary_stage c =
     (let ct2 = get c ''call_type_secondary'' in
      if ct2 = JNull then Inr c
      else if \<not> hashable ct2 then Inl TypeError
      else case ct2 of
        JStr s \<Rightarrow>
          if s \<in> set VALID_ENTITY_LABELS then Inr c
          else (case match_label s of
                  Some label \<Rightarrow> Inr (put ''call_type_secondary'' (JStr label) c)
                | None \<Rightarrow> Inr (put ''call_type_secondary'' JNull c))
      | _ \<Rightarrow> Inl AttributeError)"

text \<open>
  The rule for the category in the words of the specification: a label of the
  vocabulary passes through, a value that agrees with a label up to case is promoted to
  that label, and any other value becomes \<open>Other\<close>.
\<close>

definition call_type_rule :: "jval \<Rightarrow> string \<Rightarrow> bool" where
  "call_type_rule v label =
     (case v of
        JStr ct \<Rightarrow>
          if ct \<in> set VALID_ENTITY_LABELS then label = ct
          else if list_ex (\<lambda>l. lower l = lower ct) VALID_ENTITY_LABELS then lower label = lower ct
          else label = ''Other''
      | _ \<Rightarrow> label = ''Other'')"

text \<open>
  The regular expressions of the date and time rules are of fixed width: each position
  is a digit (\<^verbatim>\<open>\d\<close>) or a given character. \<open>shape_prefix\<close> matches such a pattern
  at the start of a string, \<open>shape_match\<close> matches it against the whole string
  (\<^verbatim>\<open>^...$\<close>; the strings tested are trimmed, so \<^verbatim>\<open>$\<close> has no final line feed
  to skip), and \<open>re_search\<close> returns the text of the leftmost match, as
  \<^verbatim>\<open>re.search\<close> does.
\<close>

datatype pat = D | L char

fun shape_prefix :: "pat list \<Rightarrow> string \<Rightarrow> bool" where
  "shape_prefix [] s = True"
| "shape_prefix (p # ps) [] = False"
| "shape_prefix (D # ps) (c # cs) = (is_digit c \<and> shape_prefix ps cs)"
| "shape_prefix (L a # ps) (c # cs) = (c = a \<and> shape_prefix ps cs)"

definition shape_match :: "pat list \<Rightarrow> string \<Rightarrow> bool" where
  "shape_match ps s = (length s = length ps \<and> shape_prefix ps s)"

fun re_search :: "pat list \<Rightarrow> string \<Rightarrow> string option" where
  "re_search ps [] = (if shape_prefix ps [] then Some [] else None)"
| "re_search ps (c # cs) =
     (if shape_prefix ps (c # cs) then Some (take (length ps) (c # cs)) else re_search ps cs)"

text \<open>\<^verbatim>\<open>date_of_event\<close>: ISO-8601 or null.\<close>

definition date_stage :: "call \<Rightarrow> call" where
  "date_stage c =
     (case get c ''date_of_event'' of
        JStr dv \<Rightarrow>
          (let date_val = strip dv in
           if shape_match [D, D, D, D, L CHR ''-'', D, D, L CHR ''-'', D, D] date_val then c
           else if shape_match [D, D, D, D] date_val
             then put ''date_of_event'' (JStr (date_val @ ''-01-01'')) c
           else if shape_match [D, D, D, D, L CHR ''-'', D, D] date_val
             then put ''date_of_event'' (JStr (date_val @ ''-01'')) c
           else case re_search [D, D, D, D, L CHR ''s''] date_val of
             Some m \<Rightarrow> put ''date_of_event'' (JStr (take 4 m @ ''-01-01'')) c
           | None \<Rightarrow>
              (case re_search [D, D, L CHR ''s''] date_val of
                 Some m \<Rightarrow>
                   (let decade_str = take 2 m;
                        century = (if int_of_digits decade_str \<ge> 30 then ''19'' else ''20'')
                    in put ''date_of_event'' (JStr (century @ decade_str @ ''-01-01'')) c)
               | None \<Rightarrow> put ''date_of_event'' JNull c))
      | _ \<Rightarrow> c)"

text \<open>
  The 12-hour form,
  \<^verbatim>\<open>re.match(r"(?:around\s+)?(\d{1,2})(?::(\d{2}))?\s*(am|pm|a\.m\.|p\.m\.)", tv)\<close>,
  matched at the start of \<open>tv\<close> in the order in which the backtracking matcher tries
  its alternatives. The result is the three groups: the hour digits, the minute digits
  (if the group took part) and the marker.

  \<open>ampm_marker\<close> is the alternation. \<open>ampm_tail\<close> is \<^verbatim>\<open>\s*\<close> followed by the
  alternation: the greedy \<^verbatim>\<open>\s*\<close> takes all the white space, and giving some of it
  back cannot help, since every alternative starts with a letter. \<open>ampm_minutes\<close> is
  the optional minute group followed by the tail: first with the group, then without.
  \<open>ampm_hour\<close> is \<^verbatim>\<open>(\d{1,2})\<close> followed by the rest: first two digits, then
  one. \<open>ampm_match\<close> first takes the optional \<^verbatim>\<open>around\s+\<close> (again all of the
  white space, since a digit must follow), then tries without it.
\<close>

definition ampm_marker :: "string \<Rightarrow> string option" where
  "ampm_marker s =
     (if starts_with ''am'' s then Some ''am''
      else if starts_with ''pm'' s then Some ''pm''
      else if starts_with ''a.m.'' s then Some ''a.m.''
      else if starts_with ''p.m.'' s then Some ''p.m.''
      else None)"

definition ampm_tail :: "string \<Rightarrow> string option" where
  "ampm_tail s = ampm_marker (dropWhile is_space s)"

definition ampm_minutes :: "string \<Rightarrow> (string option \<times> string) option" where
  "ampm_minutes s =
     (case (if shape_prefix [L CHR '':'', D, D] s
            then map_option (\<lambda>ap. (Some (take 2 (drop 1 s)), ap)) (ampm_tail (drop 3 s))
            else None) of
        Some r \<Rightarrow> Some r
      | None \<Rightarrow> map_option (\<lambda>ap. (None, ap)) (ampm_tail s))"

definition ampm_hour :: "string \<Rightarrow> (string \<times> string option \<times> string) option" where
  "ampm_hour s =
     (case (if shape_prefix [D, D] s
            then map_option (\<lambda>r. (take 2 s, r)) (ampm_minutes (drop 2 s))
            else None) of
        Some r \<Rightarrow> Some r
      | None \<Rightarrow>
          if shape_prefix [D] s
          then map_option (\<lambda>r. (take 1 s, r)) (ampm_minutes (drop 1 s))
          else None)"

definition ampm_match :: "string \<Rightarrow> (string \<times> string option \<times> string) option" where
  "ampm_match tv =
     (case (if starts_with ''around'' tv \<and> dropWhile is_space (drop 6 tv) \<noteq> drop 6 tv
            then ampm_hour (dropWhile is_space (drop 6 tv))
            else None) of
        Some r \<Rightarrow> Some r
      | None \<Rightarrow> ampm_hour tv)"

text \<open>
  The last rule of the time field: the first item of \<^verbatim>\<open>TIME_WORD_MAP.items()\<close>
  whose word occurs in \<open>tv\<close>.
\<close>

definition partial_word :: "string \<Rightarrow> (string \<times> string) option" where
  "partial_word tv = find (\<lambda>(word, hhmm). is_substring word tv) TIME_WORD_MAP"

text \<open>
  \<^verbatim>\<open>time_of_event\<close>: \<open>HH:MM\<close> or null. In the first branch \<open>tv\<close> has matched
  \<^verbatim>\<open>^\d{1,2}:\d{2}$\<close>, so \<^verbatim>\<open>tv.split(":")\<close> has two parts: the digits before
  the colon and the two digits after it.
\<close>

definition sanitize_time :: "string \<Rightarrow> jval" where
  "sanitize_time time_val =
     (let tv = lower (strip time_val) in
      if shape_match [D, L CHR '':'', D, D] tv \<or> shape_match [D, D, L CHR '':'', D, D] tv then
        (let parts0 = takeWhile (\<lambda>x. x \<noteq> CHR '':'') tv;
             parts1 = drop 1 (dropWhile (\<lambda>x. x \<noteq> CHR '':'') tv)
         in JStr (fmt02d (int_of_digits parts0) @ '':'' @ parts1))
      else case map_of TIME_WORD_MAP tv of
        Some hhmm \<Rightarrow> JStr hhmm
      | None \<Rightarrow>
         (case ampm_match tv of
            Some (g1, g2, g3) \<Rightarrow>
              (let h = int_of_digits g1;
                   mins = (case g2 of Some m \<Rightarrow> m | None \<Rightarrow> ''00'');
                   ampm = replace_char CHR ''.'' [] g3;
                   h = (if ampm = ''pm'' \<and> h \<noteq> 12 then h + 12
                        else if ampm = ''am'' \<and> h = 12 then 0 else h)
               in JStr (fmt02d h @ '':'' @ mins))
          | None \<Rightarrow>
             (case partial_word tv of
                Some (word, hhmm) \<Rightarrow> JStr hhmm
              | None \<Rightarrow> JNull)))"

definition time_stage :: "call \<Rightarrow> call" where
  "time_stage c =
     (case get c ''time_of_event'' of
        JStr time_val \<Rightarrow> put ''time_of_event'' (sanitize_time time_val) c
      | _ \<Rightarrow> c)"

text \<open>
  The time format in the words of the specification: null, or two digits, a colon and two
  digits with an hour of at most 23 and a minute of at most 59. \<open>time_shaped\<close> is the
  same without the two bounds.
\<close>

definition hhmm_shape :: "string \<Rightarrow> bool" where
  "hhmm_shape s = shape_match [D, D, L CHR '':'', D, D] s"

definition time_in_range :: "jval \<Rightarrow> bool" where
  "time_in_range v =
     (case v of
        JNull \<Rightarrow> True
      | JStr s \<Rightarrow> hhmm_shape s \<and> int_of_digits (take 2 s) \<le> 23 \<and> int_of_digits (drop 3 s) \<le> 59
      | _ \<Rightarrow> False)"

definition time_shaped :: "jval \<Rightarrow> bool" where
  "time_shaped v = (case v of JNull \<Rightarrow> True | JStr s \<Rightarrow> hhmm_shape s | _ \<Rightarrow> False)"

text \<open>
  A time in the 12-hour form whose marker is \<open>pm\<close> and whose hour is 88 or more: twelve
  hours later the hour has three digits.
\<close>

definition hour12_overflow :: "jval \<Rightarrow> bool" where
  "hour12_overflow v =
     (case v of
        JStr time_val \<Rightarrow>
          (case ampm_match (lower (strip time_val)) of
             Some (g1, g2, g3) \<Rightarrow> replace_char CHR ''.'' [] g3 = ''pm'' \<and> 88 \<le> int_of_digits g1
           | None \<Rightarrow> False)
      | _ \<Rightarrow> False)"

text \<open>\<^verbatim>\<open>involves_other_witnesses\<close>: a boolean.\<close>

definition witness_stage :: "call \<Rightarrow> call" where
  "witness_stage c =
     (case get c ''involves_other_witnesses'' of
        JBool b \<Rightarrow> c
      | JStr wit \<Rightarrow>
          put ''involves_other_witnesses''
            (JBool (lower (strip wit) \<in> set [''true'', ''yes'', ''1''])) c
      | _ \<Rightarrow> put ''involves_other_witnesses'' (JBool False) c)"

text \<open>\<^verbatim>\<open>caller_emotional_tone\<close>: one of \<^verbatim>\<open>VALID_TONES\<close>.\<close>

definition tone_stage :: "call \<Rightarrow> call" where
  "tone_stage c =
     (let v = get c ''caller_emotional_tone''; tone = (if truthy v then v else JStr []) in
      case tone of
        JStr s \<Rightarrow>
          (let t = replace_char CHR ''_'' ''-'' (lower (strip s)) in
           if t \<in> set VALID_TONES then put ''caller_emotional_tone'' (JStr t) c
           else put ''caller_emotional_tone''
                  (JStr (case map_of tone_map t of Some x \<Rightarrow> x | None \<Rightarrow> ''matter-of-fact'')) c)
      | _ \<Rightarrow> put ''caller_emotional_tone'' (JStr ''matter-of-fact'') c)"

text \<open>
  \<^verbatim>\<open>_sanitize_call\<close>: the stages in the order of the source. An exception raised
  by a stage ends the call; the result is then \<open>Inl\<close> of the exception.
\<close>

definition sanitize_call :: "call \<Rightarrow> py_error + call" where
  "sanitize_call call =
     (case country_stage (state_normalize (name_normalize (null_normalize call))) of
        Inl e \<Rightarrow> Inl e
      | Inr c4 \<Rightarrow>
         (case call_type_stage c4 of
            Inl e \<Rightarrow> Inl e
          | Inr c5 \<Rightarrow>
             (case secondary_stage c5 of
                Inl e \<Rightarrow> Inl e
              | Inr c6 \<Rightarrow> Inr (tone_stage (witness_stage (time_stage (date_stage c6)))))))"

section \<open>The chunker\<close>

text \<open>
  The three markers of \<^verbatim>\<open>_chunk_transcript\<close> are look-aheads, so a match is
  empty and \<^verbatim>\<open>re.finditer\<close> yields one match at every position where the
  look-ahead succeeds. Each marker is a predicate on the text from that position on:

  \<^verbatim>\<open>(?=Now (?:folks|gang|working|from|moving|I also))\<close>

  \<^verbatim>\<open>(?=(?:Alright|All right),? (?:gang|folks))\<close>

  \<^verbatim>\<open>(?=(?:Thank you|Thanks),? .{1,30}(?:for (?:calling|sharing|ringing)))\<close>

  A look-ahead succeeds if some choice of the alternatives matches. In the third one
  \<^verbatim>\<open>.{1,30}\<close> is between 1 and 30 characters other than the line feed; \<open>dot_run\<close>
  tries every such length.
\<close>

definition marker_now :: "string \<Rightarrow> bool" where
  "marker_now s =
     list_ex (\<lambda>w. starts_with (''Now '' @ w) s)
       [''folks'', ''gang'', ''working'', ''from'', ''moving'', ''I also'']"

definition marker_alright :: "string \<Rightarrow> bool" where
  "marker_alright s =
     list_ex (\<lambda>a. list_ex (\<lambda>comma. list_ex (\<lambda>w. starts_with (a @ comma @ '' '' @ w) s)
         [''gang'', ''folks'']) ['','', []]) [''Alright'', ''All right'']"

definition dot_run :: "nat \<Rightarrow> nat \<Rightarrow> (string \<Rightarrow> bool) \<Rightarrow> string \<Rightarrow> bool" where
  "dot_run lo hi k s =
     list_ex (\<lambda>n. n \<le> length s \<and> list_all (\<lambda>c. c \<noteq> CHR 0x0A) (take n s) \<and> k (drop n s))
       [lo..<Suc hi]"

definition marker_thanks :: "string \<Rightarrow> bool" where
  "marker_thanks s =
     list_ex (\<lambda>a. list_ex (\<lambda>comma.
         starts_with (a @ comma @ '' '') s \<and>
         dot_run 1 30
           (\<lambda>r. list_ex (\<lambda>w. starts_with (''for '' @ w) r) [''calling'', ''sharing'', ''ringing''])
           (drop (length (a @ comma @ '' '')) s))
       ['','', []]) [''Thank you'', ''Thanks'']"

definition markers :: "(string \<Rightarrow> bool) list" where
  "markers = [marker_now, marker_alright, marker_thanks]"

text \<open>
  \<^verbatim>\<open>[match.start() for match in re.finditer(m, s)]\<close>: the positions of \<open>s\<close>, in
  increasing order, at which the marker matches.
\<close>

definition match_starts :: "(string \<Rightarrow> bool) \<Rightarrow> string \<Rightarrow> nat list" where
  "match_starts m s = filter (\<lambda>i. m (drop i s)) [0..<Suc (length s)]"

text \<open>
  The test \<^verbatim>\<open>max_chars * 0.5 < match.start() < max_chars\<close>, and the inner loop
  for one marker: the matches in \<^verbatim>\<open>remaining[:max_chars + 5000]\<close> are visited from
  the last to the first, and the first one in the window replaces \<open>best\<close>.
\<close>

definition in_window :: "nat \<Rightarrow> nat \<Rightarrow> bool" where
  "in_window max_chars p = (max_chars < 2 * p \<and> p < max_chars)"

definition window_pick :: "nat \<Rightarrow> string \<Rightarrow> nat \<Rightarrow> (string \<Rightarrow> bool) \<Rightarrow> nat" where
  "window_pick max_chars s best m =
     (case find (in_window max_chars) (rev (match_starts m s)) of
        Some p \<Rightarrow> p
      | None \<Rightarrow> best)"

definition marker_pick :: "nat \<Rightarrow> string \<Rightarrow> nat \<Rightarrow> (string \<Rightarrow> bool) \<Rightarrow> nat" where
  "marker_pick max_chars remaining best m =
     window_pick max_chars (take (max_chars + 5000) remaining) best m"

text \<open>The value of \<open>best\<close> after the loop over the markers, starting from \<open>max_chars\<close>.\<close>

definition split_point :: "nat \<Rightarrow> string \<Rightarrow> nat" where
  "split_point max_chars remaining = foldl (marker_pick max_chars remaining) max_chars markers"

text \<open>
  The \<^verbatim>\<open>while\<close> loop. It need not end (it does not for \<open>max_chars = 0\<close>), so its
  result is an option: \<open>None\<close> stands for a loop that runs forever.
\<close>

partial_function (option) chunk_loop :: "nat \<Rightarrow> string list \<Rightarrow> string \<Rightarrow> string list option" where
  "chunk_loop max_chars chunks remaining =
     (if length remaining > max_chars
      then chunk_loop max_chars
             (chunks @ [take (split_point max_chars remaining) remaining])
             (drop (split_point max_chars remaining) remaining)
      else Some (if remaining \<noteq> [] then chunks @ [remaining] else chunks))"

declare chunk_loop.simps [code]

definition chunk_transcript :: "string \<Rightarrow> nat \<Rightarrow> string list option" where
  "chunk_transcript text max_chars =
     (if length text \<le> max_chars then Some [text] else chunk_loop max_chars [] text)"

text \<open>
  The split rule in the words of the specification: among the positions in the window at
  which any marker matches, the one nearest to the budget boundary, and the boundary
  itself if there is none.
\<close>

definition nearest_in :: "nat \<Rightarrow> string \<Rightarrow> nat" where
  "nearest_in max_chars s =
     (case find (\<lambda>p. list_ex (\<lambda>m. m (drop p s)) markers)
             (rev (filter (in_window max_chars) [0..<max_chars])) of
        Some p \<Rightarrow> p
      | None \<Rightarrow> max_chars)"

definition nearest_marker_split :: "nat \<Rightarrow> string \<Rightarrow> nat" where
  "nearest_marker_split max_chars remaining =
     nearest_in max_chars (take (max_chars + 5000) remaining)"

section \<open>The verifier\<close>

text \<open>
  \<^verbatim>\<open>s.split()\<close>: the maximal runs of characters that are not white space.
  \<open>runs_of\<close> collects the maximal runs of characters of a class; its first argument
  is the run read so far.
\<close>

fun runs_of :: "(char \<Rightarrow> bool) \<Rightarrow> string \<Rightarrow> string \<Rightarrow> string list" where
  "runs_of P w [] = (if w = [] then [] else [w])"
| "runs_of P w (c # cs) =
     (if P c then runs_of P (w @ [c]) cs
      else if w = [] then runs_of P [] cs
      else w # runs_of P [] cs)"

definition split_ws :: "string \<Rightarrow> string list" where
  "split_ws s = runs_of (\<lambda>c. \<not> is_space c) [] s"

text \<open>\<^verbatim>\<open>sep.join(ws)\<close>.\<close>

fun join :: "string \<Rightarrow> string list \<Rightarrow> string" where
  "join sep [] = []"
| "join sep [w] = w"
| "join sep (w # v # ws) = w @ sep @ join sep (v # ws)"

text \<open>
  \<^verbatim>\<open>re.findall(r"\b[a-z]{4,}\b", s)\<close>. A match starts and ends at a word boundary
  and consists of small letters only, so it is a maximal run of word characters
  (\<^verbatim>\<open>\w\<close>) that has at least four characters, all of them small letters; the matches
  come in the order of the text.
\<close>

definition findall_words :: "string \<Rightarrow> string list" where
  "findall_words s =
     filter (\<lambda>w. 4 \<le> length w \<and> list_all is_lower w) (runs_of is_word_char [] s)"

text \<open>
  \<^verbatim>\<open>(call.get(key) or "").strip()\<close>: a value that is true and not a string has no
  \<^verbatim>\<open>strip\<close>.
\<close>

definition text_field :: "call \<Rightarrow> string \<Rightarrow> py_error + string" where
  "text_field c key =
     (let v = get c key in
      if truthy v then (case v of JStr s \<Rightarrow> Inr (strip s) | _ \<Rightarrow> Inl AttributeError)
      else Inr [])"

text \<open>The four checks of \<^verbatim>\<open>_verify_calls\<close>; each yields the tags it appends to \<open>evidence\<close>.\<close>

definition snippet_check :: "string \<Rightarrow> string \<Rightarrow> string list" where
  "snippet_check snippet t_lower =
     (if snippet \<noteq> [] \<and> is_substring (lower snippet) t_lower then [''snippet_match'']
      else if snippet \<noteq> [] then
        (let ws = take 5 (split_ws (lower snippet)) in
         if 3 \<le> length ws \<and> is_substring (join '' '' ws) t_lower then [''snippet_partial'']
         else [])
      else [])"

definition name_check :: "string \<Rightarrow> string \<Rightarrow> string list" where
  "name_check name t_lower =
     (if name \<noteq> [] \<and> is_substring (lower name) t_lower then [''name_found''] else [])"

definition state_check :: "string \<Rightarrow> string \<Rightarrow> string list" where
  "state_check state t_lower =
     (if state \<noteq> [] \<and> is_substring (lower state) t_lower then [''state_found''] else [])"

definition desc_matches :: "string \<Rightarrow> string \<Rightarrow> nat" where
  "desc_matches desc t_lower =
     (let desc_words = map lower (findall_words (lower desc))
      in length (filter (\<lambda>w. is_substring w t_lower) desc_words))"

definition desc_check :: "string \<Rightarrow> string \<Rightarrow> string list" where
  "desc_check desc t_lower =
     (if desc \<noteq> [] then (if 3 \<le> desc_matches desc t_lower then [''desc_words_match''] else [])
      else [])"

text \<open>The evidence list of one call, and the body of the loop over the calls.\<close>

definition evidence_of :: "call \<Rightarrow> string \<Rightarrow> py_error + string list" where
  "evidence_of c transcript =
     (let t_lower = lower transcript in
      case text_field c ''caller_intro_snippet'' of Inl e \<Rightarrow> Inl e | Inr snippet \<Rightarrow>
      case text_field c ''caller_name'' of Inl e \<Rightarrow> Inl e | Inr name \<Rightarrow>
      case text_field c ''state_or_region'' of Inl e \<Rightarrow> Inl e | Inr state \<Rightarrow>
      case text_field c ''description'' of Inl e \<Rightarrow> Inl e | Inr desc \<Rightarrow>
        Inr (snippet_check snippet t_lower @ name_check name t_lower @
             state_check state t_lower @ desc_check desc t_lower))"

definition verify_call :: "call \<Rightarrow> string \<Rightarrow> py_error + call" where
  "verify_call c transcript =
     (case evidence_of c transcript of
        Inl e \<Rightarrow> Inl e
      | Inr evidence \<Rightarrow>
          Inr (put ''verification_evidence''
                 (JStr (if evidence \<noteq> [] then join '','' evidence else ''none''))
                 (put ''verified'' (JBool (evidence \<noteq> [])) c)))"

fun verify_loop :: "call list \<Rightarrow> string \<Rightarrow> py_error + call list" where
  "verify_loop [] transcript = Inr []"
| "verify_loop (c # cs) transcript =
     (case verify_call c transcript of
        Inl e \<Rightarrow> Inl e
      | Inr c' \<Rightarrow> (case verify_loop cs transcript of Inl e \<Rightarrow> Inl e | Inr cs' \<Rightarrow> Inr (c' # cs')))"

text \<open>
  The summary logged after the loop slices \<^verbatim>\<open>c.get('description','?')[:60]\<close> for
  the first three unverified calls, which raises when the field is present and is
  neither a string nor a list. The log lines themselves are not part of the result.
\<close>

definition sliceable :: "jval option \<Rightarrow> bool" where
  "sliceable v = (case v of None \<Rightarrow> True | Some (JStr s) \<Rightarrow> True | Some (JList xs) \<Rightarrow> True
                  | Some other \<Rightarrow> False)"

definition verify_calls :: "call list \<Rightarrow> string \<Rightarrow> py_error + call list" where
  "verify_calls calls transcript =
     (case verify_loop calls transcript of
        Inl e \<Rightarrow> Inl e
      | Inr cs \<Rightarrow>
          (let unverified = filter (\<lambda>c. \<not> truthy (get c ''verified'')) cs in
           if list_all (\<lambda>c. sliceable (map_of c ''description'')) (take 3 unverified)
           then Inr cs else Inl TypeError))"

text \<open>
  The evidence rule for the summary in the words of the specification, stated on the
  positions of the text and not through \<open>findall_words\<close>. A word of four or more letters
  occurs at position \<open>i\<close> of \<open>s\<close> with length \<open>n\<close> when the \<open>n\<close> characters from \<open>i\<close>
  on are small letters, there are at least four of them, and neither the character
  before them nor the character after them, if there is one, is a word character.
\<close>

definition word_occurrence :: "string \<Rightarrow> nat \<Rightarrow> nat \<Rightarrow> bool" where
  "word_occurrence s i n =
     (4 \<le> n \<and> i + n \<le> length s \<and> list_all is_lower (take n (drop i s)) \<and>
      (i = 0 \<or> \<not> is_word_char (s ! (i - 1))) \<and>
      (i + n = length s \<or> \<not> is_word_char (s ! (i + n))))"

text \<open>A word occurs at position \<open>i\<close> of \<open>s\<close>, and that word occurs somewhere in \<open>t\<close>.\<close>

definition hit_at :: "string \<Rightarrow> string \<Rightarrow> nat \<Rightarrow> bool" where
  "hit_at s t i =
     list_ex (\<lambda>n. word_occurrence s i n \<and> is_substring (take n (drop i s)) t)
       [0..<Suc (length s)]"

text \<open>
  The words of the lowered summary that occur in the lowered transcript, one for each
  occurrence in the summary. The claim counts the distinct ones
  (\<open>three_distinct_words\<close>); \<open>word_hits\<close> counts the occurrences, with repetition.
\<close>

definition hit_words :: "string \<Rightarrow> string \<Rightarrow> string list" where
  "hit_words s t =
     concat (map (\<lambda>i. concat (map (\<lambda>n.
         if word_occurrence s i n \<and> is_substring (take n (drop i s)) t
         then [take n (drop i s)] else [])
       [0..<Suc (length s)])) [0..<length s])"

definition three_distinct_words :: "string \<Rightarrow> string \<Rightarrow> bool" where
  "three_distinct_words desc transcript =
     (3 \<le> card (set (hit_words (lower desc) (lower transcript))))"

definition word_hits :: "string \<Rightarrow> string \<Rightarrow> nat" where
  "word_hits desc transcript =
     length (filter (hit_at (lower desc) (lower transcript)) [0..<length (lower desc)])"

section \<open>The chunk loop of the extractor\<close>

text \<open>
  The two substitutions that remove a code fence from the raw response:
  \<^verbatim>\<open>re.sub(r"^```(?:json)?\s*", "", raw)\<close> removes an opening fence at the very
  start, with the word \<open>json\<close> and the white space after it.
  \<^verbatim>\<open>re.sub(r"\s*```$", "", raw)\<close> removes the leftmost stretch of white space and
  closing fence that ends the text; \<^verbatim>\<open>$\<close> also matches before a final line feed,
  which is then kept.
\<close>

definition strip_open_fence :: "string \<Rightarrow> string" where
  "strip_open_fence raw =
     (if starts_with ''```'' raw then
        (let r = drop 3 raw; r = (if starts_with ''json'' r then drop 4 r else r)
         in dropWhile is_space r)
      else raw)"

fun strip_close_fence :: "string \<Rightarrow> string" where
  "strip_close_fence [] = []"
| "strip_close_fence (c # cs) =
     (if dropWhile is_space (c # cs) = ''```'' then []
      else if dropWhile is_space (c # cs) = ''```'' @ [CHR 0x0A] then [CHR 0x0A]
      else c # strip_close_fence cs)"

text \<open>
  What the loop takes from outside: the backend call \<^verbatim>\<open>_llm_call\<close> for a chunk
  (the other parts of the request are fixed for the episode), which returns the raw text
  or raises; \<^verbatim>\<open>json.loads\<close>, which returns a value or raises a decode error with a
  message; and \<^verbatim>\<open>_resolve_timestamps\<close> on the calls of the chunk, which reads the
  time index of the episode.
\<close>

datatype exn = JSONDecodeError string | BackendError string | PyError py_error

datatype event = LogError string string exn | Sleep nat

record episode =
  ep_name :: string
  ep_season :: jval
  ep_episode :: jval
  ep_release_date :: string

record parse_state =
  episode_calls :: "call list"
  events :: "event list"

text \<open>
  The body of \<^verbatim>\<open>for call in calls\<close>: the four episode fields are stored in the
  call, which must be a dictionary, and the call is sanitized.
\<close>

definition prepare_call :: "episode \<Rightarrow> jval \<Rightarrow> exn + call" where
  "prepare_call ep v =
     (case v of
        JDict call \<Rightarrow>
          (case sanitize_call
                  (put ''release_date'' (JStr (ep_release_date ep))
                    (put ''episode_title'' (JStr (ep_name ep))
                      (put ''episode'' (ep_episode ep)
                        (put ''season'' (ep_season ep) call)))) of
             Inl e \<Rightarrow> Inl (PyError e)
           | Inr c \<Rightarrow> Inr c)
      | _ \<Rightarrow> Inl (PyError TypeError))"

fun prepare_calls :: "episode \<Rightarrow> jval list \<Rightarrow> exn + call list" where
  "prepare_calls ep [] = Inr []"
| "prepare_calls ep (v # vs) =
     (case prepare_call ep v of
        Inl e \<Rightarrow> Inl e
      | Inr c \<Rightarrow> (case prepare_calls ep vs of Inl e \<Rightarrow> Inl e | Inr cs \<Rightarrow> Inr (c # cs)))"

text \<open>
  The elements that \<^verbatim>\<open>for call in calls\<close> visits. A decoded value that cannot be
  iterated raises; a dictionary or a string yields keys or characters, on which the
  first assignment raises.
\<close>

definition iter_calls :: "jval \<Rightarrow> exn + jval list" where
  "iter_calls v =
     (case v of
        JList xs \<Rightarrow> Inr xs
      | JDict kvs \<Rightarrow> if kvs = [] then Inr [] else Inl (PyError TypeError)
      | JStr s \<Rightarrow> if s = [] then Inr [] else Inl (PyError TypeError)
      | _ \<Rightarrow> Inl (PyError TypeError))"

text \<open>The \<^verbatim>\<open>try\<close> block for one chunk: the calls it adds, or the exception raised.\<close>

definition try_chunk ::
  "(string \<Rightarrow> exn + string) \<Rightarrow> (string \<Rightarrow> string + jval) \<Rightarrow> (call list \<Rightarrow> exn + call list) \<Rightarrow>
   episode \<Rightarrow> string \<Rightarrow> exn + call list" where
  "try_chunk llm_call json_loads resolve_timestamps ep chunk =
     (case llm_call chunk of
        Inl e \<Rightarrow> Inl e
      | Inr raw \<Rightarrow>
         (case json_loads (strip_close_fence (strip_open_fence raw)) of
            Inl msg \<Rightarrow> Inl (JSONDecodeError msg)
          | Inr v \<Rightarrow>
             (case iter_calls v of
                Inl e \<Rightarrow> Inl e
              | Inr vs \<Rightarrow>
                 (case prepare_calls ep vs of
                    Inl e \<Rightarrow> Inl e
                  | Inr calls \<Rightarrow> resolve_timestamps calls))))"

text \<open>
  One iteration of \<^verbatim>\<open>for i, chunk in enumerate(chunks)\<close> with its two handlers and
  the pauses (in tenths of a second), and the whole loop.
\<close>

definition process_chunk ::
  "(string \<Rightarrow> exn + string) \<Rightarrow> (string \<Rightarrow> string + jval) \<Rightarrow> (call list \<Rightarrow> exn + call list) \<Rightarrow>
   episode \<Rightarrow> parse_state \<Rightarrow> string \<Rightarrow> parse_state" where
  "process_chunk llm_call json_loads resolve_timestamps ep st chunk =
     (case try_chunk llm_call json_loads resolve_timestamps ep chunk of
        Inr calls \<Rightarrow>
          st\<lparr>episode_calls := episode_calls st @ calls, events := events st @ [Sleep 15]\<rparr>
      | Inl (JSONDecodeError msg) \<Rightarrow>
          st\<lparr>events := events st @
               [LogError ''JSON error'' (take 50 (ep_name ep)) (JSONDecodeError msg), Sleep 15]\<rparr>
      | Inl e \<Rightarrow>
          st\<lparr>events := events st @
               [LogError ''API error'' (take 50 (ep_name ep)) e, Sleep 50, Sleep 15]\<rparr>)"

definition run_chunks ::
  "(string \<Rightarrow> exn + string) \<Rightarrow> (string \<Rightarrow> string + jval) \<Rightarrow> (call list \<Rightarrow> exn + call list) \<Rightarrow>
   episode \<Rightarrow> parse_state \<Rightarrow> string list \<Rightarrow> parse_state" where
  "run_chunks llm_call json_loads resolve_timestamps ep st chunks =
     foldl (process_chunk llm_call json_loads resolve_timestamps ep) st chunks"

section \<open>Properties of the sanitizer\<close>

text \<open>
  Claim C3: for every input record, also one whose field values are neither strings nor
  null, the sanitizer never raises. The code raises on a record whose \<^verbatim>\<open>call_type\<close>
  is the number 5: the value is true and is not a label, so the loop over the labels
  calls \<^verbatim>\<open>ct.lower()\<close> on an integer.
\<close>

theorem sanitize_call_raises_on_number:
  "sanitize_call [(''call_type'', JInt 5)] = Inl AttributeError"
  by code_simp

text \<open>
  Claim C5: sanitizing a record whose \<^verbatim>\<open>time_of_event\<close> is
  \<^verbatim>\<open>"around 3 in the afternoon"\<close> yields the time \<^verbatim>\<open>"15:00"\<close>. The code yields
  \<^verbatim>\<open>"12:00"\<close>: the text has no am/pm marker, and the first word of the table that
  occurs in it is \<open>noon\<close>, inside \<open>afternoon\<close>.
\<close>

theorem sanitize_call_around_3_in_the_afternoon:
  "sanitize_call [(''time_of_event'', JStr ''around 3 in the afternoon'')] =
     Inr [(''time_of_event'', JStr ''12:00''), (''call_type'', JStr ''Other''),
          (''involves_other_witnesses'', JBool False),
          (''caller_emotional_tone'', JStr ''matter-of-fact'')]"
  by code_simp

text \<open>
  Claim C6: the sanitizer is idempotent, applying it twice gives the same field values as
  applying it once. On the time \<^verbatim>\<open>"99pm"\<close> the first pass stores
  \<^verbatim>\<open>"111:00"\<close>, which no rule of the time field accepts, and the second pass turns
  it into null.
\<close>

theorem sanitize_call_twice_99pm:
  "sanitize_call [(''time_of_event'', JStr ''99pm'')] =
     Inr [(''time_of_event'', JStr ''111:00''), (''call_type'', JStr ''Other''),
          (''involves_other_witnesses'', JBool False),
          (''caller_emotional_tone'', JStr ''matter-of-fact'')] \<and>
   sanitize_call [(''time_of_event'', JStr ''111:00''), (''call_type'', JStr ''Other''),
          (''involves_other_witnesses'', JBool False),
          (''caller_emotional_tone'', JStr ''matter-of-fact'')] =
     Inr [(''time_of_event'', JNull), (''call_type'', JStr ''Other''),
          (''involves_other_witnesses'', JBool False),
          (''caller_emotional_tone'', JStr ''matter-of-fact'')]"
  by code_simp

section \<open>Properties of the chunker\<close>

text \<open>Every split point lies between 1 and the budget, when the budget is positive.\<close>

lemma window_pick_cases:
  "window_pick mc s best m = best \<or> in_window mc (window_pick mc s best m)"
  by (auto simp: window_pick_def find_Some_iff split: option.splits)

lemma foldl_pick_range:
  "0 < b \<Longrightarrow> b \<le> mc \<Longrightarrow>
   0 < foldl (marker_pick mc r) b ms \<and> foldl (marker_pick mc r) b ms \<le> mc"
proof (induction ms arbitrary: b)
  case Nil
  then show ?case by simp
next
  case (Cons m ms)
  have "0 < marker_pick mc r b m \<and> marker_pick mc r b m \<le> mc"
    using window_pick_cases [of mc "take (mc + 5000) r" b m] Cons.prems
    by (auto simp: marker_pick_def in_window_def)
  then show ?case using Cons.IH by simp
qed

lemma split_point_range:
  "0 < mc \<Longrightarrow> 0 < split_point mc r \<and> split_point mc r \<le> mc"
  unfolding split_point_def by (rule foldl_pick_range) simp_all

text \<open>
  The loop returns, and the chunks it returns spell the chunks it started with followed
  by the remaining text. The induction is on the length of the remaining text, which
  every iteration shortens.
\<close>

lemma chunk_loop_concat:
  assumes "0 < mc"
  shows "\<exists>cs. chunk_loop mc chunks r = Some cs \<and> concat cs = concat chunks @ r"
proof (induction r arbitrary: chunks rule: length_induct)
  case (1 r)
  show ?case
  proof (cases "mc < length r")
    case True
    let ?b = "split_point mc r"
    have b: "0 < ?b" "?b \<le> mc"
      using split_point_range [OF assms] by auto
    have "length (drop ?b r) < length r"
      using True b by simp
    then obtain cs where cs: "chunk_loop mc (chunks @ [take ?b r]) (drop ?b r) = Some cs"
      "concat cs = concat (chunks @ [take ?b r]) @ drop ?b r"
      using 1 by blast
    from cs True show ?thesis
      by (subst chunk_loop.simps) simp
  next
    case False
    then show ?thesis
      by (subst chunk_loop.simps) simp
  qed
qed

text \<open>
  Claim C2: for every text and budget, concatenating the chunks that
  \<^verbatim>\<open>_chunk_transcript\<close> returns gives the text back, whether the text is shorter
  than, as long as or longer than the budget. For every positive budget (the configured
  one is 75000) the function returns, and the chunks spell the text.
\<close>

theorem chunk_transcript_lossless:
  "0 < max_chars \<Longrightarrow>
   \<exists>chunks. chunk_transcript text max_chars = Some chunks \<and> concat chunks = text"
  using chunk_loop_concat [of max_chars "[]" "text"] by (simp add: chunk_transcript_def)

theorem chunk_transcript_lossless_witness:
  "0 < (5::nat) \<and>
   (\<exists>chunks. chunk_transcript ''hello world, hello'' 5 = Some chunks \<and>
             concat chunks = ''hello world, hello'')"
  using chunk_transcript_lossless [of 5 "''hello world, hello''"] by simp

text \<open>
  Claim C10: for every text and every budget of at least 1, \<^verbatim>\<open>_chunk_transcript\<close>
  terminates: every split point is positive, so every iteration of the loop leaves a
  strictly shorter remaining text.
\<close>

theorem chunk_transcript_terminates:
  "1 \<le> max_chars \<Longrightarrow>
   chunk_transcript text max_chars \<noteq> None \<and>
   (max_chars < length remaining \<longrightarrow>
      1 \<le> split_point max_chars remaining \<and>
      length (drop (split_point max_chars remaining) remaining) < length remaining)"
proof -
  assume m: "1 \<le> max_chars"
  then have pos: "0 < max_chars" by simp
  have "chunk_transcript text max_chars \<noteq> None"
    using chunk_loop_concat [OF pos, of "[]" "text"] by (auto simp: chunk_transcript_def)
  moreover have "0 < split_point max_chars remaining"
    using split_point_range [OF pos] by simp
  ultimately show ?thesis by auto
qed

theorem chunk_transcript_terminates_witness:
  "(1::nat) \<le> 5 \<and> 5 < length ''hello world, hello'' \<and>
   chunk_transcript ''hello world, hello'' 5 \<noteq> None \<and>
   1 \<le> split_point 5 ''hello world, hello'' \<and>
   length (drop (split_point 5 ''hello world, hello'') ''hello world, hello'')
     < length ''hello world, hello''"
  using chunk_transcript_terminates [of 5 "''hello world, hello''" "''hello world, hello''"]
  by simp

text \<open>
  An example with a budget of 30: the text has \<open>Alright gang\<close> at position 16 and
  \<open>Now folks\<close> at position 29, both in the window. The loop first picks 29 for the
  first marker and then replaces it by 16 for the second one.
\<close>

lemma split_point_example:
  "split_point 30 ''xxxxxxxxxxxxxxxxAlright gang Now folks, hello.'' = 16"
proof -
  let ?t = "''xxxxxxxxxxxxxxxxAlright gang Now folks, hello.''"
  have "take (30 + 5000) ?t = ?t" by simp
  moreover have "foldl (window_pick 30 ?t) 30 markers = 16" by code_simp
  ultimately show ?thesis
    unfolding split_point_def marker_pick_def [abs_def] by simp
qed

lemma nearest_marker_split_example:
  "nearest_marker_split 30 ''xxxxxxxxxxxxxxxxAlright gang Now folks, hello.'' = 29"
proof -
  let ?t = "''xxxxxxxxxxxxxxxxAlright gang Now folks, hello.''"
  have "take (30 + 5000) ?t = ?t" by simp
  moreover have "nearest_in 30 ?t = 29" by code_simp
  ultimately show ?thesis
    unfolding nearest_marker_split_def by simp
qed

text \<open>
  Claim C7: for every text longer than the budget, each split point is the marker match
  nearest to the budget boundary among all the marker matches that start strictly
  between half the budget and the budget; only when there is none is the split made at
  the boundary. In the example the loop finds the nearest match, at 29, for the first
  marker and then overwrites it, without comparing, by the match at 16 of the second
  marker: the split point is 16.
\<close>

theorem split_point_not_nearest:
  "30 < length ''xxxxxxxxxxxxxxxxAlright gang Now folks, hello.'' \<and>
   split_point 30 ''xxxxxxxxxxxxxxxxAlright gang Now folks, hello.'' = 16 \<and>
   nearest_marker_split 30 ''xxxxxxxxxxxxxxxxAlright gang Now folks, hello.'' = 29"
  using split_point_example nearest_marker_split_example by simp

section \<open>The category field\<close>

text \<open>What a stage stores under one key leaves the other keys as they were.\<close>

lemma get_put: "get (put k v c) k' = (if k' = k then v else get c k')"
  by (simp add: get_def put_def update_conv')

lemma get_null_step_other: "k \<noteq> key \<Longrightarrow> get (null_step c key) k = get c k"
  by (simp add: null_step_def get_put split: jval.splits)

lemma get_foldl_null_step_other:
  "k \<notin> set ks \<Longrightarrow> get (foldl null_step c ks) k = get c k"
  by (induction ks arbitrary: c) (simp_all add: get_null_step_other)

lemma get_null_normalize_other:
  "k \<notin> set null_keys \<Longrightarrow> get (null_normalize c) k = get c k"
  by (simp add: null_normalize_def get_foldl_null_step_other)

lemma get_name_normalize_other:
  "k \<noteq> ''caller_name'' \<Longrightarrow> get (name_normalize c) k = get c k"
  by (simp add: name_normalize_def get_null_step_other)

lemma get_state_normalize_other:
  "k \<noteq> ''state_or_region'' \<Longrightarrow> get (state_normalize c) k = get c k"
  by (simp add: state_normalize_def get_put Let_def split: jval.splits option.splits)

lemma get_country_stage_other:
  "country_stage c = Inr c' \<Longrightarrow> k \<noteq> ''country'' \<Longrightarrow> get c' k = get c k"
  by (auto simp: country_stage_def get_put Let_def split: if_splits)

lemma get_secondary_stage_other:
  "secondary_stage c = Inr c' \<Longrightarrow> k \<noteq> ''call_type_secondary'' \<Longrightarrow> get c' k = get c k"
  by (auto simp: secondary_stage_def get_put Let_def split: if_splits jval.splits option.splits)

lemma get_date_stage_other:
  "k \<noteq> ''date_of_event'' \<Longrightarrow> get (date_stage c) k = get c k"
  by (simp add: date_stage_def get_put Let_def split: jval.splits option.splits)

lemma get_time_stage_other:
  "k \<noteq> ''time_of_event'' \<Longrightarrow> get (time_stage c) k = get c k"
  by (simp add: time_stage_def get_put split: jval.splits)

lemma get_witness_stage_other:
  "k \<noteq> ''involves_other_witnesses'' \<Longrightarrow> get (witness_stage c) k = get c k"
  by (simp add: witness_stage_def get_put split: jval.splits)

lemma get_tone_stage_other:
  "k \<noteq> ''caller_emotional_tone'' \<Longrightarrow> get (tone_stage c) k = get c k"
  by (simp add: tone_stage_def get_put Let_def split: jval.splits)

lemma get_call_type_stage_other:
  "call_type_stage c = Inr c' \<Longrightarrow> k \<noteq> ''call_type'' \<Longrightarrow> get c' k = get c k"
  by (auto simp: call_type_stage_def get_put Let_def split: if_splits jval.splits option.splits)

lemma sanitize_call_stages:
  assumes "sanitize_call c = Inr c'"
  obtains c4 c5 c6 where
    "country_stage (state_normalize (name_normalize (null_normalize c))) = Inr c4"
    "call_type_stage c4 = Inr c5"
    "secondary_stage c5 = Inr c6"
    "c' = tone_stage (witness_stage (time_stage (date_stage c6)))"
  using assms by (auto simp: sanitize_call_def split: sum.splits)

lemma Other_valid: "''Other'' \<in> set VALID_ENTITY_LABELS"
  by (simp add: VALID_ENTITY_LABELS_def)

lemma empty_not_valid: "[] \<notin> set VALID_ENTITY_LABELS"
  by (simp add: VALID_ENTITY_LABELS_def)

lemma lower_eq_Nil: "lower s = [] \<longleftrightarrow> s = []"
  by (simp add: lower_def)

text \<open>
  No two labels agree up to case, so the label that the loop finds does not depend on
  the order in which the set is visited.
\<close>

lemma labels_distinct_up_to_case: "distinct (map lower VALID_ENTITY_LABELS)"
  by code_simp

lemma call_type_stage_result:
  assumes "call_type_stage c = Inr c'"
  shows "\<exists>label. label \<in> set VALID_ENTITY_LABELS \<and> get c' ''call_type'' = JStr label \<and>
           call_type_rule (get c ''call_type'') label"
proof (cases "get c ''call_type''")
  case (JStr ct)
  show ?thesis
  proof (cases "ct \<in> set VALID_ENTITY_LABELS")
    case True
    with JStr assms show ?thesis
      by (auto simp: call_type_stage_def call_type_rule_def Let_def empty_not_valid split: if_splits)
  next
    case False
    show ?thesis
    proof (cases "match_label ct")
      case None
      then have no: "\<not> list_ex (\<lambda>l. lower l = lower ct) VALID_ENTITY_LABELS"
        by (auto simp: match_label_def find_None_iff list_ex_iff)
      from JStr False None assms have "get c' ''call_type'' = JStr ''Other''"
        by (auto simp: call_type_stage_def Let_def get_put split: if_splits)
      with JStr False no Other_valid show ?thesis
        by (auto simp: call_type_rule_def)
    next
      case (Some label)
      then have l: "label \<in> set VALID_ENTITY_LABELS" "lower label = lower ct"
        by (auto simp: match_label_def find_Some_iff)
      then have ex: "list_ex (\<lambda>l. lower l = lower ct) VALID_ENTITY_LABELS"
        by (auto simp: list_ex_iff)
      have "ct \<noteq> []" using l empty_not_valid by (auto simp: lower_def)
      with JStr False Some assms have "get c' ''call_type'' = JStr label"
        by (auto simp: call_type_stage_def Let_def get_put split: if_splits)
      with JStr False l ex show ?thesis
        by (auto simp: call_type_rule_def)
    qed
  qed
qed (use assms Other_valid in \<open>auto simp: call_type_stage_def call_type_rule_def Let_def get_put
      empty_not_valid split: if_splits\<close>)

text \<open>
  Claim C1: for every record that the sanitizer processes to completion, the resulting
  \<^verbatim>\<open>call_type\<close> is a member of \<^verbatim>\<open>VALID_ENTITY_LABELS\<close>, never another string
  and never empty: a member passes through, a value that matches a label up to case is
  promoted to that label, and any other value, an absent one too, becomes \<open>Other\<close>.
\<close>

theorem sanitize_call_type_valid:
  assumes "sanitize_call c = Inr c'"
  shows "\<exists>label. label \<in> set VALID_ENTITY_LABELS \<and> get c' ''call_type'' = JStr label \<and>
           call_type_rule (get c ''call_type'') label"
proof -
  from assms obtain c4 c5 c6 where st:
    "country_stage (state_normalize (name_normalize (null_normalize c))) = Inr c4"
    "call_type_stage c4 = Inr c5"
    "secondary_stage c5 = Inr c6"
    "c' = tone_stage (witness_stage (time_stage (date_stage c6)))"
    by (rule sanitize_call_stages)
  have before: "get c4 ''call_type'' = get c ''call_type''"
    using get_country_stage_other [OF st(1), of "''call_type''"]
    by (simp add: get_state_normalize_other get_name_normalize_other get_null_normalize_other
        null_keys_def)
  have after: "get c' ''call_type'' = get c5 ''call_type''"
    using get_secondary_stage_other [OF st(3), of "''call_type''"]
    by (simp add: st(4) get_tone_stage_other get_witness_stage_other get_time_stage_other
        get_date_stage_other)
  from call_type_stage_result [OF st(2)] before after show ?thesis by simp
qed

theorem sanitize_call_type_valid_witness:
  "sanitize_call [(''call_type'', JStr ''dogman'')] =
     Inr [(''call_type'', JStr ''Dogman''), (''involves_other_witnesses'', JBool False),
          (''caller_emotional_tone'', JStr ''matter-of-fact'')] \<and>
   ''Dogman'' \<in> set VALID_ENTITY_LABELS \<and>
   call_type_rule (JStr ''dogman'') ''Dogman''"
proof -
  have e: "sanitize_call [(''call_type'', JStr ''dogman'')] =
     Inr [(''call_type'', JStr ''Dogman''), (''involves_other_witnesses'', JBool False),
          (''caller_emotional_tone'', JStr ''matter-of-fact'')]"
    by code_simp
  from sanitize_call_type_valid [OF e] e show ?thesis
    by (simp add: get_def)
qed

section \<open>The time field\<close>

text \<open>
  The value of \<^verbatim>\<open>time_of_event\<close> after the first loop, and after the time rule.
\<close>

lemma get_null_step_same:
  "get (null_step c k) k =
     (case get c k of
        JStr val \<Rightarrow> if lower (strip val) \<in> set NULL_STRINGS then JNull else JStr val
      | v \<Rightarrow> v)"
  by (simp add: null_step_def get_put split: jval.splits)

lemma get_foldl_null_step_same:
  "distinct ks \<Longrightarrow> k \<in> set ks \<Longrightarrow> get (foldl null_step c ks) k = get (null_step c k) k"
proof (induction ks arbitrary: c)
  case Nil
  then show ?case by simp
next
  case (Cons a ks)
  show ?case
  proof (cases "a = k")
    case True
    with Cons.prems show ?thesis by (simp add: get_foldl_null_step_other)
  next
    case False
    with Cons have "get (foldl null_step (null_step c a) ks) k = get (null_step (null_step c a) k) k"
      by simp
    also have "\<dots> = get (null_step c k) k"
      using False by (simp add: get_null_step_same get_null_step_other)
    finally show ?thesis by simp
  qed
qed

lemma get_null_normalize_time:
  "get (null_normalize c) ''time_of_event'' = get (null_step c ''time_of_event'') ''time_of_event''"
  unfolding null_normalize_def
  by (rule get_foldl_null_step_same) (simp_all add: null_keys_def)

lemma get_time_stage_same:
  "get (time_stage c) ''time_of_event'' =
     (case get c ''time_of_event'' of JStr time_val \<Rightarrow> sanitize_time time_val | v \<Rightarrow> v)"
  by (simp add: time_stage_def get_put split: jval.splits)

text \<open>Hours below 100 are formatted with two digits; the words of the table map to \<open>HH:MM\<close>.\<close>

lemma digit_val_le: "digit_val c \<le> 9"
  by (auto simp: digit_val_def split: option.splits if_splits)

lemma digit_chars: "list_all (\<lambda>d. is_digit (digit_char d)) [0..<10]"
  by code_simp

lemma is_digit_digit_char: "d < 10 \<Longrightarrow> is_digit (digit_char d)"
  using digit_chars by (simp add: list_all_iff del: upt_Suc)

lemma fmt02d_shape: "n < 100 \<Longrightarrow> shape_match [D, D] (fmt02d n)"
proof -
  assume n: "n < 100"
  have z: "is_digit CHR ''0''" by (simp add: is_digit_def)
  show ?thesis
  proof (cases "n < 10")
    case True
    then show ?thesis
      using z by (simp add: fmt02d_def str_nat.simps [of n] shape_match_def is_digit_digit_char)
  next
    case False
    with n have "n div 10 < 10" by simp
    with False show ?thesis
      by (simp add: fmt02d_def str_nat.simps [of n] str_nat.simps [of "n div 10"]
          shape_match_def is_digit_digit_char)
  qed
qed

lemma hhmm_shape_append:
  "shape_match [D, D] h \<Longrightarrow> shape_match [D, D] m \<Longrightarrow> hhmm_shape (h @ '':'' @ m)"
  by (cases h; cases "tl h"; cases m; cases "tl m")
     (auto simp: hhmm_shape_def shape_match_def)

lemma int_of_digits_1: "int_of_digits [a] \<le> 9"
  using digit_val_le [of a] by (simp add: int_of_digits_def)

lemma int_of_digits_2: "int_of_digits [a, b] \<le> 99"
  using digit_val_le [of a] digit_val_le [of b] by (simp add: int_of_digits_def)

lemma word_map_shapes: "list_all (\<lambda>(word, hhmm). hhmm_shape hhmm) TIME_WORD_MAP"
  by code_simp

lemma word_map_shape: "(word, hhmm) \<in> set TIME_WORD_MAP \<Longrightarrow> hhmm_shape hhmm"
  using word_map_shapes by (auto simp: list_all_iff)

text \<open>The groups of a match of the 12-hour form: one or two characters, and two digits or nothing.\<close>

lemma shape_prefix_D:
  "shape_prefix [D] s \<Longrightarrow> \<exists>a r. s = a # r \<and> is_digit a"
  by (cases s) auto

lemma shape_prefix_DD:
  "shape_prefix [D, D] s \<Longrightarrow> \<exists>a b r. s = a # b # r \<and> is_digit a \<and> is_digit b"
  by (cases s; cases "tl s") auto

lemma ampm_minutes_shape:
  "ampm_minutes s = Some (g2, g3) \<Longrightarrow> g2 = None \<or> (\<exists>m. g2 = Some m \<and> shape_match [D, D] m)"
  by (cases s; cases "tl s"; cases "tl (tl s)")
     (auto simp: ampm_minutes_def shape_match_def split: if_splits option.splits)

lemma ampm_hour_shape:
  assumes "ampm_hour s = Some (g1, g2, g3)"
  shows "(\<exists>a. g1 = [a]) \<or> (\<exists>a b. g1 = [a, b])"
    and "g2 = None \<or> (\<exists>m. g2 = Some m \<and> shape_match [D, D] m)"
  using assms
  by (auto simp: ampm_hour_def split: if_splits option.splits
      dest!: shape_prefix_D shape_prefix_DD dest: ampm_minutes_shape)

lemma ampm_match_shape:
  assumes "ampm_match tv = Some (g1, g2, g3)"
  shows "(\<exists>a. g1 = [a]) \<or> (\<exists>a b. g1 = [a, b])"
    and "g2 = None \<or> (\<exists>m. g2 = Some m \<and> shape_match [D, D] m)"
  using assms ampm_hour_shape
  by (auto simp: ampm_match_def split: if_splits option.splits)

lemma is_digit_not_colon: "is_digit a \<Longrightarrow> a \<noteq> CHR '':''"
  by (auto simp: is_digit_def)

lemma shape_match_hmm:
  "shape_match [D, L CHR '':'', D, D] s \<Longrightarrow>
   \<exists>a b c. s = [a, CHR '':'', b, c] \<and> is_digit a \<and> is_digit b \<and> is_digit c"
  by (cases s; cases "tl s"; cases "tl (tl s)"; cases "tl (tl (tl s))")
     (auto simp: shape_match_def)

lemma shape_match_hhmm:
  "shape_match [D, D, L CHR '':'', D, D] s \<Longrightarrow>
   \<exists>a a' b c. s = [a, a', CHR '':'', b, c] \<and> is_digit a \<and> is_digit a' \<and> is_digit b \<and> is_digit c"
  by (cases s; cases "tl s"; cases "tl (tl s)"; cases "tl (tl (tl s))";
      cases "tl (tl (tl (tl s)))")
     (auto simp: shape_match_def)

lemma sanitize_time_shaped:
  assumes "\<not> hour12_overflow (JStr time_val)"
  shows "time_shaped (sanitize_time time_val)"
proof -
  let ?tv = "lower (strip time_val)"
  consider (one) "shape_match [D, L CHR '':'', D, D] ?tv"
    | (two) "shape_match [D, D, L CHR '':'', D, D] ?tv"
    | (other) "\<not> shape_match [D, L CHR '':'', D, D] ?tv"
        "\<not> shape_match [D, D, L CHR '':'', D, D] ?tv"
    by blast
  then show ?thesis
  proof cases
    case one
    then obtain a b c where tv: "?tv = [a, CHR '':'', b, c]"
      and d: "is_digit a" "is_digit b" "is_digit c"
      using shape_match_hmm by blast
    have h: "shape_match [D, D] (fmt02d (int_of_digits [a]))"
      using int_of_digits_1 [of a] by (intro fmt02d_shape) simp
    have m: "shape_match [D, D] [b, c]"
      using d by (simp add: shape_match_def)
    have "sanitize_time time_val = JStr (fmt02d (int_of_digits [a]) @ '':'' @ [b, c])"
      using one d(1) by (simp add: sanitize_time_def Let_def tv is_digit_not_colon)
    with hhmm_shape_append [OF h m] show ?thesis
      by (simp add: time_shaped_def)
  next
    case two
    then obtain a a' b c where tv: "?tv = [a, a', CHR '':'', b, c]"
      and d: "is_digit a" "is_digit a'" "is_digit b" "is_digit c"
      using shape_match_hhmm by blast
    have h: "shape_match [D, D] (fmt02d (int_of_digits [a, a']))"
      using int_of_digits_2 [of a a'] by (intro fmt02d_shape) simp
    have m: "shape_match [D, D] [b, c]"
      using d by (simp add: shape_match_def)
    have "sanitize_time time_val = JStr (fmt02d (int_of_digits [a, a']) @ '':'' @ [b, c])"
      using two d(1,2) by (simp add: sanitize_time_def Let_def tv is_digit_not_colon)
    with hhmm_shape_append [OF h m] show ?thesis
      by (simp add: time_shaped_def)
  next
    case other
    show ?thesis
    proof (cases "map_of TIME_WORD_MAP ?tv")
      case (Some hhmm)
      then have "hhmm_shape hhmm"
        using word_map_shape map_of_SomeD by fast
      with other Some show ?thesis
        by (simp add: sanitize_time_def Let_def time_shaped_def)
    next
      case None
      show ?thesis
      proof (cases "ampm_match ?tv")
        case (Some g)
        obtain g1 g2 g3 where g: "g = (g1, g2, g3)" by (cases g)
        let ?h = "int_of_digits g1"
        let ?ampm = "replace_char CHR ''.'' [] g3"
        let ?h' = "if ?ampm = ''pm'' \<and> ?h \<noteq> 12 then ?h + 12
                   else if ?ampm = ''am'' \<and> ?h = 12 then 0 else ?h"
        let ?mins = "case g2 of Some m \<Rightarrow> m | None \<Rightarrow> ''00''"
        have hb: "?h \<le> 99"
        proof -
          from ampm_match_shape(1) [OF Some [unfolded g]]
          consider a where "g1 = [a]" | a b where "g1 = [a, b]" by blast
          then show ?thesis
          proof cases
            case 1
            then show ?thesis using int_of_digits_1 [of a] by simp
          next
            case 2
            then show ?thesis using int_of_digits_2 [of a b] by simp
          qed
        qed
        have no: "\<not> (?ampm = ''pm'' \<and> 88 \<le> ?h)"
          using assms Some g by (simp add: hour12_overflow_def)
        have "?h' < 100" using hb no by auto
        then have h: "shape_match [D, D] (fmt02d ?h')" by (rule fmt02d_shape)
        have "is_digit CHR ''0''" by (simp add: is_digit_def)
        then have m: "shape_match [D, D] ?mins"
          using ampm_match_shape(2) [OF Some [unfolded g]]
          by (auto simp: shape_match_def)
        have "sanitize_time time_val = JStr (fmt02d ?h' @ '':'' @ ?mins)"
          using other None Some g by (simp add: sanitize_time_def Let_def)
        with hhmm_shape_append [OF h m] show ?thesis
          by (simp add: time_shaped_def)
      next
        case no_ampm: None
        show ?thesis
        proof (cases "partial_word ?tv")
          case None
          with other \<open>map_of TIME_WORD_MAP ?tv = None\<close> no_ampm show ?thesis
            by (simp add: sanitize_time_def Let_def time_shaped_def)
        next
          case (Some wh)
          obtain word hhmm where wh: "wh = (word, hhmm)" by (cases wh)
          from Some wh have "(word, hhmm) \<in> set TIME_WORD_MAP"
            by (auto simp: partial_word_def find_Some_iff) (metis nth_mem)
          then have "hhmm_shape hhmm" by (rule word_map_shape)
          with other \<open>map_of TIME_WORD_MAP ?tv = None\<close> no_ampm Some wh show ?thesis
            by (simp add: sanitize_time_def Let_def time_shaped_def)
        qed
      qed
    qed
  qed
qed

text \<open>
  The time of a sanitized record: a value that is not a string is kept, and a string
  becomes null or takes the shape \<open>HH:MM\<close>, unless the hour overflows.
\<close>

lemma time_after_sanitize:
  assumes "sanitize_call c = Inr c'"
    and "\<not> hour12_overflow (get c ''time_of_event'')"
  shows "case get c ''time_of_event'' of
           JStr time_val \<Rightarrow> time_shaped (get c' ''time_of_event'')
         | v \<Rightarrow> get c' ''time_of_event'' = v"
proof -
  from assms(1) obtain c4 c5 c6 where st:
    "country_stage (state_normalize (name_normalize (null_normalize c))) = Inr c4"
    "call_type_stage c4 = Inr c5"
    "secondary_stage c5 = Inr c6"
    "c' = tone_stage (witness_stage (time_stage (date_stage c6)))"
    by (rule sanitize_call_stages)
  have "get c6 ''time_of_event'' = get (null_step c ''time_of_event'') ''time_of_event''"
    using get_secondary_stage_other [OF st(3), of "''time_of_event''"]
      get_call_type_stage_other [OF st(2), of "''time_of_event''"]
      get_country_stage_other [OF st(1), of "''time_of_event''"]
    by (simp add: get_state_normalize_other get_name_normalize_other get_null_normalize_time)
  then have c': "get c' ''time_of_event'' =
      (case get (null_step c ''time_of_event'') ''time_of_event'' of
         JStr time_val \<Rightarrow> sanitize_time time_val | v \<Rightarrow> v)"
    by (simp add: st(4) get_tone_stage_other get_witness_stage_other get_time_stage_same
        get_date_stage_other)
  show ?thesis
  proof (cases "get c ''time_of_event''")
    case (JStr time_val)
    with assms(2) have "time_shaped (sanitize_time time_val)"
      by (intro sanitize_time_shaped) simp
    with JStr show ?thesis
      by (simp add: c' get_null_step_same time_shaped_def)
  qed (simp_all add: c' get_null_step_same)
qed

text \<open>
  Claim C4: for every input record, after the sanitizer has run, \<^verbatim>\<open>time_of_event\<close>
  is either null or a zero-padded string \<open>HH:MM\<close> whose hour is in 0..23 and whose minute
  is in 0..59. The time \<^verbatim>\<open>"25:61"\<close> matches the first rule and is stored as it is.
\<close>

theorem sanitize_call_time_out_of_range:
  "sanitize_call [(''time_of_event'', JStr ''25:61'')] =
     Inr [(''time_of_event'', JStr ''25:61''), (''call_type'', JStr ''Other''),
          (''involves_other_witnesses'', JBool False),
          (''caller_emotional_tone'', JStr ''matter-of-fact'')] \<and>
   \<not> time_in_range (JStr ''25:61'')"
  by code_simp

text \<open>
  Claim C4, amended: for every input record on which the sanitizer completes and whose
  \<^verbatim>\<open>time_of_event\<close> is absent, null or a string of ASCII text, other than a 12-hour
  \<open>pm\<close> form with an hour of 88 or more, the \<^verbatim>\<open>time_of_event\<close> of the result is
  either null or a string of two digits, a colon and two digits. The hour is not checked
  against 0..23, nor the minute against 0..59. Nothing is said of a
  \<^verbatim>\<open>time_of_event\<close> that is neither null nor a string.
\<close>

theorem sanitize_call_time_shape:
  assumes "sanitize_call c = Inr c'"
    and "ascii_text_or_null (get c ''time_of_event'')"
    and "\<not> hour12_overflow (get c ''time_of_event'')"
  shows "time_shaped (get c' ''time_of_event'')"
proof -
  from time_after_sanitize [OF assms(1) assms(3)] assms(2) show ?thesis
    by (cases "get c ''time_of_event''") (simp_all add: ascii_text_or_null_def time_shaped_def)
qed

theorem sanitize_call_time_shape_witness:
  "sanitize_call [(''time_of_event'', JStr ''7:05 PM'')] =
     Inr [(''time_of_event'', JStr ''19:05''), (''call_type'', JStr ''Other''),
          (''involves_other_witnesses'', JBool False),
          (''caller_emotional_tone'', JStr ''matter-of-fact'')] \<and>
   ascii_text_or_null (JStr ''7:05 PM'') \<and>
   \<not> hour12_overflow (JStr ''7:05 PM'') \<and>
   time_shaped (JStr ''19:05'')"
proof -
  let ?c = "[(''time_of_event'', JStr ''7:05 PM'')]"
  have e: "sanitize_call ?c =
     Inr [(''time_of_event'', JStr ''19:05''), (''call_type'', JStr ''Other''),
          (''involves_other_witnesses'', JBool False),
          (''caller_emotional_tone'', JStr ''matter-of-fact'')]"
    by code_simp
  have a: "ascii_text_or_null (get ?c ''time_of_event'')"
    by code_simp
  have n: "\<not> hour12_overflow (get ?c ''time_of_event'')"
    by code_simp
  from sanitize_call_time_shape [OF e a n] e a n show ?thesis
    by (simp add: get_def)
qed

section \<open>Properties of the verifier\<close>

text \<open>
  The words that \<open>findall_words\<close> returns consist of small letters, so lowering them
  again changes nothing.
\<close>

lemma lowercase_not_uppercase: "list_all (\<lambda>c. c \<notin> set ascii_uppercase) ascii_lowercase"
  by code_simp

lemma lower_char_lower: "is_lower c \<Longrightarrow> lower_char c = c"
proof -
  assume "is_lower c"
  then have "c \<notin> set ascii_uppercase"
    using lowercase_not_uppercase by (simp add: is_lower_def list_all_iff)
  moreover have "length ascii_uppercase = length ascii_lowercase"
    by (simp add: ascii_uppercase_def ascii_lowercase_def)
  ultimately have "map_of (zip ascii_uppercase ascii_lowercase) c = None"
    by (simp add: map_of_zip_is_None)
  then show ?thesis by (simp add: lower_char_def)
qed

lemma lower_lowercase: "list_all is_lower w \<Longrightarrow> lower w = w"
  by (induction w) (simp_all add: lower_def lower_char_lower)

lemma map_lower_findall_words: "map lower (findall_words s) = findall_words s"
  by (rule map_idI) (auto simp: findall_words_def lower_lowercase)

text \<open>
  \<open>runs_of\<close> returns the characters read so far together with the longest prefix of
  the text in the class, if that is not empty, and then the runs of what follows the
  first character outside the class.
\<close>

lemma runs_of_takeWhile:
  "runs_of P w s =
     (if w @ takeWhile P s = [] then [] else [w @ takeWhile P s]) @
     (case dropWhile P s of [] \<Rightarrow> [] | d # r \<Rightarrow> runs_of P [] r)"
  by (induction s arbitrary: w) simp_all

text \<open>
  Word occurrences and runs. After a prefix that ends outside the word characters the
  occurrences are those of the rest of the text. Inside the first run of word characters
  and at the character that ends it there is at most one occurrence: the run itself, at
  position 0, when it has four or more characters that are all small letters.
\<close>

lemma lower_word_char: "is_lower c \<Longrightarrow> is_word_char c"
  by (simp add: is_word_char_def)

lemma word_occurrence_shift:
  assumes "p \<noteq> []" and "\<not> is_word_char (last p)"
  shows "word_occurrence (p @ r) (length p + j) n = word_occurrence r j n"
proof -
  have a: "(p @ r) ! (length p + j - 1) = (if j = 0 then last p else r ! (j - 1))"
    using assms(1) by (cases j) (simp_all add: nth_append last_conv_nth)
  have b: "(p @ r) ! (length p + j + n) = r ! (j + n)"
    by (simp add: nth_append add.assoc)
  show ?thesis
    unfolding word_occurrence_def a b using assms by (cases "j = 0") (auto simp: add.assoc)
qed

lemma word_occurrence_in_run:
  assumes run: "list_all is_word_char r"
    and stop: "rest = [] \<or> \<not> is_word_char (hd rest)"
    and i: "i < length (r @ rest)" "i \<le> length r"
  shows "word_occurrence (r @ rest) i n \<longleftrightarrow>
         i = 0 \<and> n = length r \<and> 4 \<le> length r \<and> list_all is_lower r"
proof
  assume occ: "word_occurrence (r @ rest) i n"
  then have n: "4 \<le> n" "i + n \<le> length (r @ rest)"
    and low: "list_all is_lower (take n (drop i (r @ rest)))"
    and before: "i = 0 \<or> \<not> is_word_char ((r @ rest) ! (i - 1))"
    and after: "i + n = length (r @ rest) \<or> \<not> is_word_char ((r @ rest) ! (i + n))"
    by (simp_all add: word_occurrence_def)
  have i0: "i = 0"
  proof (rule ccontr)
    assume "i \<noteq> 0"
    with i have "i - 1 < length r" by simp
    then have "is_word_char ((r @ rest) ! (i - 1))"
      using run by (simp add: nth_append list_all_length)
    with before \<open>i \<noteq> 0\<close> show False by simp
  qed
  have all: "\<And>k. k < n \<Longrightarrow> is_word_char ((r @ rest) ! k)"
  proof -
    fix k assume k: "k < n"
    from low i0 have "list_all is_lower (take n (r @ rest))" by simp
    moreover from k n i0 have "k < length (take n (r @ rest))" by simp
    ultimately have "is_lower (take n (r @ rest) ! k)"
      unfolding list_all_length by blast
    with k have "is_lower ((r @ rest) ! k)" by (simp only: nth_take)
    then show "is_word_char ((r @ rest) ! k)" by (rule lower_word_char)
  qed
  have le: "n \<le> length r"
  proof (rule ccontr)
    assume "\<not> n \<le> length r"
    then have l: "length r < n" by simp
    with n i0 have "rest \<noteq> []" by auto
    with stop have "\<not> is_word_char ((r @ rest) ! length r)"
      by (simp add: nth_append hd_conv_nth)
    with all [OF l] show False by simp
  qed
  have ge: "length r \<le> n"
  proof (rule ccontr)
    assume "\<not> length r \<le> n"
    then have l: "n < length r" by simp
    then have "is_word_char ((r @ rest) ! n)"
      using run by (simp add: nth_append list_all_length)
    with after i0 l show False by simp
  qed
  from le ge have "n = length r" by simp
  with i0 n low show "i = 0 \<and> n = length r \<and> 4 \<le> length r \<and> list_all is_lower r"
    by simp
next
  assume "i = 0 \<and> n = length r \<and> 4 \<le> length r \<and> list_all is_lower r"
  with stop show "word_occurrence (r @ rest) i n"
    by (cases rest) (simp_all add: word_occurrence_def nth_append)
qed

lemma count_first:
  "length (filter (\<lambda>i. i = 0 \<and> B) [0..<m]) = (if 0 < m \<and> B then 1 else 0)"
proof (cases m)
  case 0
  then show ?thesis by simp
next
  case (Suc k)
  have "filter (\<lambda>i. i = 0 \<and> B) [Suc 0..<Suc k] = []"
    by (auto simp: filter_empty_conv simp del: upt_Suc)
  then show ?thesis
    unfolding Suc by (simp add: upt_conv_Cons del: upt_Suc)
qed

text \<open>
  The words that \<open>findall_words\<close> extracts are the word occurrences: for every property
  \<open>Q\<close> of words, as many extracted words have it as there are positions at which a
  word with \<open>Q\<close> occurs.
\<close>

lemma upt_split: "[0..<m + k] = [0..<m] @ map (\<lambda>j. m + j) [0..<k]"
proof -
  have "map (\<lambda>j. m + j) [0..<k] = map (\<lambda>j. j + m) [0..<k]"
    by (rule map_cong) simp_all
  also have "\<dots> = [m..<k + m]" by (simp only: map_add_upt)
  finally show ?thesis
    by (simp only: upt_add_eq_append [OF le0] add.commute [of k m])
qed

lemma words_count:
  "length (filter Q (findall_words s)) =
   length (filter (\<lambda>i. \<exists>n. word_occurrence s i n \<and> Q (take n (drop i s))) [0..<length s])"
proof (induction s rule: length_induct)
  case (1 s)
  define r where "r = takeWhile is_word_char s"
  define rest where "rest = dropWhile is_word_char s"
  define good where "good \<longleftrightarrow> 4 \<le> length r \<and> list_all is_lower r \<and> Q r"
  define m where "m = length r + (if rest = [] then 0 else 1)"
  have s: "s = r @ rest"
    by (simp add: r_def rest_def)
  have run: "list_all is_word_char r"
    unfolding r_def list_all_iff by (auto dest: set_takeWhileD)
  have stop: "rest = [] \<or> \<not> is_word_char (hd rest)"
    unfolding rest_def using hd_dropWhile [of is_word_char s] by blast
  have first: "(\<exists>n. word_occurrence s i n \<and> Q (take n (drop i s))) \<longleftrightarrow> (i = 0 \<and> good)"
    if "i < m" for i
  proof -
    from that have i: "i < length (r @ rest)" "i \<le> length r"
      by (cases rest; simp add: m_def)+
    show ?thesis
      unfolding s word_occurrence_in_run [OF run stop i] good_def by auto
  qed
  have "filter (\<lambda>i. \<exists>n. word_occurrence s i n \<and> Q (take n (drop i s))) [0..<m] =
        filter (\<lambda>i. i = 0 \<and> good) [0..<m]"
    by (rule filter_cong) (simp_all add: first)
  moreover have "good \<Longrightarrow> 0 < m"
    by (auto simp: good_def m_def)
  ultimately have firstcount:
    "length (filter (\<lambda>i. \<exists>n. word_occurrence s i n \<and> Q (take n (drop i s))) [0..<m]) =
       (if good then 1 else 0)"
    by (auto simp: count_first)
  have ro: "runs_of is_word_char [] s =
      (if r = [] then [] else [r]) @
      (case rest of [] \<Rightarrow> [] | d # rest' \<Rightarrow> runs_of is_word_char [] rest')"
    unfolding r_def rest_def
    by (rule trans [OF runs_of_takeWhile]) (simp only: append_Nil)
  have runs: "findall_words s =
      filter (\<lambda>w. 4 \<le> length w \<and> list_all is_lower w) (if r = [] then [] else [r]) @
      (case rest of [] \<Rightarrow> [] | d # rest' \<Rightarrow> findall_words rest')"
    by (cases rest) (simp_all only: findall_words_def ro list.case filter_append filter.simps)
  have head: "length (filter Q (filter (\<lambda>w. 4 \<le> length w \<and> list_all is_lower w)
                 (if r = [] then [] else [r]))) = (if good then 1 else 0)"
    by (auto simp: good_def)
  show ?case
  proof (cases rest)
    case Nil
    have lm: "length s = m" by (simp add: m_def s Nil)
    have fw: "findall_words s =
        filter (\<lambda>w. 4 \<le> length w \<and> list_all is_lower w) (if r = [] then [] else [r])"
      by (simp only: runs Nil list.case append_Nil2)
    show ?thesis by (simp only: fw head lm firstcount)
  next
    case (Cons d rest')
    with stop have d: "\<not> is_word_char d" by simp
    have len: "length s = m + length rest'" and m: "m = length (r @ [d])"
      by (simp_all add: s Cons m_def)
    have sp: "s = (r @ [d]) @ rest'" by (simp add: s Cons)
    have shift: "word_occurrence s (m + j) n = word_occurrence rest' j n" for j n
      unfolding m sp by (rule word_occurrence_shift) (simp_all add: d)
    have tk: "take n (drop (m + j) s) = take n (drop j rest')" for j n
      unfolding m sp by (simp add: drop_append)
    have "length rest' < length s" by (simp add: len m)
    with 1 have ih: "length (filter Q (findall_words rest')) =
        length (filter (\<lambda>i. \<exists>n. word_occurrence rest' i n \<and> Q (take n (drop i rest')))
                  [0..<length rest'])"
      by blast
    have later: "length (filter (\<lambda>i. \<exists>n. word_occurrence s i n \<and> Q (take n (drop i s)))
                    (map (\<lambda>j. m + j) [0..<length rest'])) =
          length (filter (\<lambda>i. \<exists>n. word_occurrence rest' i n \<and> Q (take n (drop i rest')))
                    [0..<length rest'])"
      by (simp only: filter_map o_def shift tk length_map)
    have fw: "findall_words s =
        filter (\<lambda>w. 4 \<le> length w \<and> list_all is_lower w) (if r = [] then [] else [r]) @
        findall_words rest'"
      by (simp only: runs Cons list.case)
    show ?thesis
      by (simp only: fw len upt_split filter_append length_append head firstcount later ih)
  qed
qed

text \<open>
  So the number that the code compares with 3 is the number of occurrences of words of
  the summary in the transcript.
\<close>

lemma hit_at_iff:
  "hit_at s t i \<longleftrightarrow> (\<exists>n. word_occurrence s i n \<and> is_substring (take n (drop i s)) t)"
proof -
  have "n < Suc (length s)" if "word_occurrence s i n" for n
    using that by (simp add: word_occurrence_def)
  then show ?thesis
    unfolding hit_at_def list_ex_iff by (auto simp del: upt_Suc)
qed

lemma desc_matches_word_hits: "desc_matches desc (lower transcript) = word_hits desc transcript"
  unfolding desc_matches_def word_hits_def Let_def map_lower_findall_words
  by (simp only: words_count hit_at_iff [abs_def])

lemma word_hits_Nil: "word_hits [] transcript = 0"
  by (simp add: word_hits_def lower_def)

text \<open>At one position at most one word occurs.\<close>

lemma word_occurrence_longer:
  assumes "word_occurrence s i n" and "word_occurrence s i n'"
  shows "\<not> n < n'"
proof
  assume less: "n < n'"
  from assms(2) have len: "i + n' \<le> length s"
    and low: "list_all is_lower (take n' (drop i s))"
    by (simp_all add: word_occurrence_def)
  from less len have "n < length (take n' (drop i s))" by simp
  with low have "is_lower (take n' (drop i s) ! n)"
    unfolding list_all_length by blast
  with less len have "is_lower (s ! (i + n))" by simp
  then have "is_word_char (s ! (i + n))" by (rule lower_word_char)
  moreover from assms(1) have "i + n = length s \<or> \<not> is_word_char (s ! (i + n))"
    by (simp add: word_occurrence_def)
  ultimately show False using less len by simp
qed

lemma word_occurrence_unique:
  assumes "word_occurrence s i n" and "word_occurrence s i n'"
  shows "n = n'"
  using word_occurrence_longer [OF assms] word_occurrence_longer [OF assms(2) assms(1)]
  by simp

text \<open>
  The words that occur in the transcript are at most as many as their occurrences in the
  summary.
\<close>

lemma hit_words_le:
  "card (set (hit_words s t)) \<le> length (filter (hit_at s t) [0..<length s])"
proof -
  define f where "f i = take (THE n. word_occurrence s i n) (drop i s)" for i
  have "set (hit_words s t) \<subseteq> f ` set (filter (hit_at s t) [0..<length s])"
  proof
    fix w
    assume "w \<in> set (hit_words s t)"
    then obtain i n where i: "i < length s" and occ: "word_occurrence s i n"
      and sub: "is_substring (take n (drop i s)) t" and w: "w = take n (drop i s)"
      by (auto simp: hit_words_def split: if_splits simp del: upt_Suc)
    from occ have "(THE n. word_occurrence s i n) = n"
      by (rule the_equality) (rule word_occurrence_unique [OF _ occ])
    then have "f i = w" by (simp add: f_def w)
    moreover from occ sub have "hit_at s t i" unfolding hit_at_iff by blast
    ultimately show "w \<in> f ` set (filter (hit_at s t) [0..<length s])"
      using i by force
  qed
  then have "card (set (hit_words s t)) \<le> card (f ` set (filter (hit_at s t) [0..<length s]))"
    by (rule card_mono [rotated]) simp
  also have "\<dots> \<le> card (set (filter (hit_at s t) [0..<length s]))"
    by (rule card_image_le) simp
  also have "\<dots> \<le> length (filter (hit_at s t) [0..<length s])"
    by (rule card_length)
  finally show ?thesis .
qed

lemma three_distinct_words_hits:
  "three_distinct_words desc transcript \<Longrightarrow> 3 \<le> word_hits desc transcript"
  unfolding three_distinct_words_def word_hits_def
  using hit_words_le [of "lower desc" "lower transcript"] by simp

text \<open>The summary check fires from three occurrences on, and no other check carries its tag.\<close>

lemma desc_check_fires:
  "''desc_words_match'' \<in> set (desc_check desc (lower transcript)) \<longleftrightarrow>
   3 \<le> word_hits desc transcript"
  by (cases "desc = []") (simp_all add: desc_check_def desc_matches_word_hits word_hits_Nil)

lemma desc_check_nonempty:
  "desc_check desc (lower transcript) \<noteq> [] \<longleftrightarrow> 3 \<le> word_hits desc transcript"
  by (cases "desc = []") (simp_all add: desc_check_def desc_matches_word_hits word_hits_Nil)

lemma other_checks_tags:
  "''desc_words_match'' \<notin> set (snippet_check snippet t)"
  "''desc_words_match'' \<notin> set (name_check name t)"
  "''desc_words_match'' \<notin> set (state_check state t)"
  by (simp_all add: snippet_check_def name_check_def state_check_def Let_def)

text \<open>
  Claim C8: the signal \<^verbatim>\<open>desc_words_match\<close> fires if and only if at least three
  distinct words of four or more letters of the summary also appear in the transcript,
  and the record is verified if and only if one of the four signals fires. A summary that
  repeats one word three times fires the signal with a single distinct word.
\<close>

theorem verify_call_repeated_word:
  "verify_call [(''description'', JStr ''Ghost ghost GHOST.'')] ''a ghost!'' =
     Inr [(''description'', JStr ''Ghost ghost GHOST.''), (''verified'', JBool True),
          (''verification_evidence'', JStr ''desc_words_match'')] \<and>
   \<not> three_distinct_words ''Ghost ghost GHOST.'' ''a ghost!''"
  by code_simp

text \<open>
  Claim C8, amended: for every transcript of ASCII text and every record whose snippet,
  name, region and summary are ASCII text, if the verifier completes, the signal
  \<^verbatim>\<open>desc_words_match\<close> fires if and only if at least three occurrences (counted with
  repetition, not distinct words) of words of four or more letters of the lowered summary
  occur as substrings of the lowered transcript; three distinct such words are enough for
  it; and the \<^verbatim>\<open>verified\<close> flag is true if and only if at least one of the four
  signals (snippet, name, state, summary words) fires.
\<close>

theorem verify_call_signals:
  assumes "verify_call c transcript = Inr c'"
    and "ascii transcript"
    and "ascii_field c ''caller_intro_snippet''"
    and "ascii_field c ''caller_name''"
    and "ascii_field c ''state_or_region''"
    and "ascii_field c ''description''"
  shows "\<exists>snippet name state desc evidence.
           text_field c ''caller_intro_snippet'' = Inr snippet \<and>
           text_field c ''caller_name'' = Inr name \<and>
           text_field c ''state_or_region'' = Inr state \<and>
           text_field c ''description'' = Inr desc \<and>
           evidence_of c transcript = Inr evidence \<and>
           (''desc_words_match'' \<in> set evidence \<longleftrightarrow> 3 \<le> word_hits desc transcript) \<and>
           (three_distinct_words desc transcript \<longrightarrow> ''desc_words_match'' \<in> set evidence) \<and>
           get c' ''verified'' =
             JBool (snippet_check snippet (lower transcript) \<noteq> [] \<or>
                    (name \<noteq> [] \<and> is_substring (lower name) (lower transcript)) \<or>
                    (state \<noteq> [] \<and> is_substring (lower state) (lower transcript)) \<or>
                    ''desc_words_match'' \<in> set evidence)"
proof -
  from assms(1) obtain evidence where ev: "evidence_of c transcript = Inr evidence"
    and c': "c' = put ''verification_evidence''
                 (JStr (if evidence \<noteq> [] then join '','' evidence else ''none''))
                 (put ''verified'' (JBool (evidence \<noteq> [])) c)"
    by (auto simp: verify_call_def split: sum.splits)
  from ev obtain snippet name state desc where f:
    "text_field c ''caller_intro_snippet'' = Inr snippet"
    "text_field c ''caller_name'' = Inr name"
    "text_field c ''state_or_region'' = Inr state"
    "text_field c ''description'' = Inr desc"
    and e: "evidence = snippet_check snippet (lower transcript) @ name_check name (lower transcript) @
             state_check state (lower transcript) @ desc_check desc (lower transcript)"
    by (auto simp: evidence_of_def Let_def split: sum.splits)
  have v: "get c' ''verified'' = JBool (evidence \<noteq> [])"
    by (simp add: c' get_put)
  have fires: "''desc_words_match'' \<in> set evidence \<longleftrightarrow> 3 \<le> word_hits desc transcript"
    by (simp add: e other_checks_tags desc_check_fires)
  have distinct: "three_distinct_words desc transcript \<longrightarrow> ''desc_words_match'' \<in> set evidence"
    unfolding fires by (simp add: three_distinct_words_hits)
  have any: "evidence \<noteq> [] \<longleftrightarrow>
      (snippet_check snippet (lower transcript) \<noteq> [] \<or>
       (name \<noteq> [] \<and> is_substring (lower name) (lower transcript)) \<or>
       (state \<noteq> [] \<and> is_substring (lower state) (lower transcript)) \<or>
       ''desc_words_match'' \<in> set evidence)"
    unfolding fires by (simp add: e desc_check_nonempty name_check_def state_check_def)
  from f ev fires distinct v any show ?thesis by simp
qed

theorem verify_call_signals_witness:
  "verify_call [(''description'', JStr ''Dark tall shadow'')] ''A tall, dark shadow.'' =
     Inr [(''description'', JStr ''Dark tall shadow''), (''verified'', JBool True),
          (''verification_evidence'', JStr ''desc_words_match'')] \<and>
   ascii ''A tall, dark shadow.'' \<and>
   ascii_field [(''description'', JStr ''Dark tall shadow'')] ''description'' \<and>
   evidence_of [(''description'', JStr ''Dark tall shadow'')] ''A tall, dark shadow.'' =
     Inr [''desc_words_match''] \<and>
   3 \<le> word_hits ''Dark tall shadow'' ''A tall, dark shadow.''"
proof -
  let ?c = "[(''description'', JStr ''Dark tall shadow'')]"
  have e: "verify_call ?c ''A tall, dark shadow.'' =
     Inr [(''description'', JStr ''Dark tall shadow''), (''verified'', JBool True),
          (''verification_evidence'', JStr ''desc_words_match'')]"
    by code_simp
  have a: "ascii ''A tall, dark shadow.''"
    by code_simp
  have f: "ascii_field ?c ''caller_intro_snippet''" "ascii_field ?c ''caller_name''"
    "ascii_field ?c ''state_or_region''" "ascii_field ?c ''description''"
    by code_simp+
  have ev: "evidence_of ?c ''A tall, dark shadow.'' = Inr [''desc_words_match'']"
    by code_simp
  have d: "text_field ?c ''description'' = Inr ''Dark tall shadow''"
    by code_simp
  from verify_call_signals [OF e a f] e a f(4) ev d show ?thesis by auto
qed

section \<open>Properties of the chunk loop\<close>

lemma run_chunks_append:
  "run_chunks llm_call json_loads resolve_timestamps ep st (before @ chunk # after) =
   run_chunks llm_call json_loads resolve_timestamps ep
     (process_chunk llm_call json_loads resolve_timestamps ep
        (run_chunks llm_call json_loads resolve_timestamps ep st before) chunk) after"
  by (simp add: run_chunks_def)

text \<open>
  Claim C9: when the response of the backend for one chunk fails to decode, the chunk
  contributes no record, the error is logged with the name of the session, the session
  is not aborted, and the loop goes on with the remaining chunks of the session.
\<close>

theorem decode_error_skips_chunk:
  assumes "llm_call chunk = Inr raw"
    and "json_loads (strip_close_fence (strip_open_fence raw)) = Inl msg"
  shows "process_chunk llm_call json_loads resolve_timestamps ep st chunk =
           st\<lparr>events := events st @
                [LogError ''JSON error'' (take 50 (ep_name ep)) (JSONDecodeError msg), Sleep 15]\<rparr> \<and>
         episode_calls (process_chunk llm_call json_loads resolve_timestamps ep st chunk) =
           episode_calls st \<and>
         run_chunks llm_call json_loads resolve_timestamps ep st (before @ chunk # after) =
           run_chunks llm_call json_loads resolve_timestamps ep
             (process_chunk llm_call json_loads resolve_timestamps ep
                (run_chunks llm_call json_loads resolve_timestamps ep st before) chunk) after"
proof -
  have "try_chunk llm_call json_loads resolve_timestamps ep chunk = Inl (JSONDecodeError msg)"
    using assms by (simp add: try_chunk_def)
  then have "process_chunk llm_call json_loads resolve_timestamps ep st chunk =
           st\<lparr>events := events st @
                [LogError ''JSON error'' (take 50 (ep_name ep)) (JSONDecodeError msg), Sleep 15]\<rparr>"
    by (simp add: process_chunk_def)
  then show ?thesis by (simp add: run_chunks_append)
qed

theorem decode_error_skips_chunk_witness:
  "(\<lambda>chunk. Inr (if chunk = ''c1'' then ''oops'' else ''[{}]'') :: exn + string) ''c1'' = Inr ''oops'' \<and>
   (\<lambda>s. if s = ''[{}]'' then Inr (JList [JDict []]) else Inl ''Expecting value'')
     (strip_close_fence (strip_open_fence ''oops'')) = (Inl ''Expecting value'' :: string + jval) \<and>
   run_chunks (\<lambda>chunk. Inr (if chunk = ''c1'' then ''oops'' else ''[{}]''))
     (\<lambda>s. if s = ''[{}]'' then Inr (JList [JDict []]) else Inl ''Expecting value'')
     Inr
     \<lparr>ep_name = ''Episode 1'', ep_season = JInt 1, ep_episode = JInt 1,
      ep_release_date = ''2025-01-01''\<rparr>
     \<lparr>episode_calls = [], events = []\<rparr> [''c1'', ''c2''] =
   \<lparr>episode_calls =
      [[(''season'', JInt 1), (''episode'', JInt 1), (''episode_title'', JStr ''Episode 1''),
        (''release_date'', JStr ''2025-01-01''), (''call_type'', JStr ''Other''),
        (''involves_other_witnesses'', JBool False),
        (''caller_emotional_tone'', JStr ''matter-of-fact'')]],
    events =
      [LogError ''JSON error'' ''Episode 1'' (JSONDecodeError ''Expecting value''),
       Sleep 15, Sleep 15]\<rparr>"
proof -
  let ?llm = "\<lambda>chunk. Inr (if chunk = ''c1'' then ''oops'' else ''[{}]'') :: exn + string"
  let ?json = "\<lambda>s. if s = ''[{}]'' then Inr (JList [JDict []])
                    else (Inl ''Expecting value'' :: string + jval)"
  let ?ep = "\<lparr>ep_name = ''Episode 1'', ep_season = JInt 1, ep_episode = JInt 1,
              ep_release_date = ''2025-01-01''\<rparr>"
  let ?st = "\<lparr>episode_calls = [], events = []\<rparr>"
  let ?st1 = "\<lparr>episode_calls = [], events =
      [LogError ''JSON error'' ''Episode 1'' (JSONDecodeError ''Expecting value''), Sleep 15]\<rparr>"
  have h1: "?llm ''c1'' = Inr ''oops''" by simp
  have h2: "?json (strip_close_fence (strip_open_fence ''oops'')) = Inl ''Expecting value''"
    by code_simp
  note skip = decode_error_skips_chunk [of ?llm "''c1''" "''oops''" ?json "''Expecting value''"
      Inr ?ep ?st "[]" "[''c2'']", OF h1 h2]
  have first: "process_chunk ?llm ?json Inr ?ep ?st ''c1'' = ?st1"
    using skip by simp
  have second: "run_chunks ?llm ?json Inr ?ep ?st1 [''c2''] =
    \<lparr>episode_calls =
      [[(''season'', JInt 1), (''episode'', JInt 1), (''episode_title'', JStr ''Episode 1''),
        (''release_date'', JStr ''2025-01-01''), (''call_type'', JStr ''Other''),
        (''involves_other_witnesses'', JBool False),
        (''caller_emotional_tone'', JStr ''matter-of-fact'')]],
    events =
      [LogError ''JSON error'' ''Episode 1'' (JSONDecodeError ''Expecting value''),
       Sleep 15, Sleep 15]\<rparr>"
    by code_simp
  have "run_chunks ?llm ?json Inr ?ep ?st [''c1'', ''c2''] =
      run_chunks ?llm ?json Inr ?ep (process_chunk ?llm ?json Inr ?ep ?st ''c1'') [''c2'']"
    using skip by (simp add: run_chunks_def)
  with first second h1 h2 show ?thesis by simp
qed

section \<open>Idempotence of the sanitizer\<close>

text \<open>
  Facts about single characters, checked for each of the 256 characters, and what they
  give for \<open>strip\<close>, \<open>lower\<close>, \<open>upper\<close> and \<open>title\<close>.
\<close>

lemma case_chars:
  "\<forall>c. upper_char (lower_char c) = upper_char c \<and> upper_char (upper_char c) = upper_char c \<and>
       lower_char (upper_char c) = lower_char c \<and> lower_char (lower_char c) = lower_char c"
  by code_simp

lemma letter_chars:
  "\<forall>c. ((is_lower (lower_char c) \<or> is_upper (lower_char c)) = (is_lower c \<or> is_upper c)) \<and>
       ((is_lower (upper_char c) \<or> is_upper (upper_char c)) = (is_lower c \<or> is_upper c))"
  by code_simp

lemma space_chars:
  "\<forall>c. (is_space (lower_char c) = is_space c) \<and> (is_space (upper_char c) = is_space c)"
  by code_simp

lemma digit_chars_plain:
  "\<forall>c. is_digit c \<longrightarrow> \<not> is_space c \<and> lower_char c = c \<and> c \<noteq> CHR '':'' \<and>
       digit_char (digit_val c) = c \<and> digit_val c < 10"
  by code_simp

lemma strip_ends:
  "strip s = [] \<or> (\<not> is_space (hd (strip s)) \<and> \<not> is_space (last (strip s)))"
proof -
  let ?d = "dropWhile is_space s"
  let ?r = "dropWhile is_space (rev ?d)"
  show ?thesis
  proof (cases "?r = []")
    case True
    then show ?thesis by (simp add: strip_def)
  next
    case False
    have d: "?d \<noteq> []"
    proof
      assume a: "?d = []"
      have "?r = []" unfolding a by simp
      with False show False by contradiction
    qed
    have hr: "\<not> is_space (hd ?r)" using False by (rule hd_dropWhile)
    have hd_d: "\<not> is_space (hd ?d)" using d by (rule hd_dropWhile)
    have "?r = drop (length (takeWhile is_space (rev ?d))) (rev ?d)"
      by (rule dropWhile_eq_drop)
    moreover from False have "length (takeWhile is_space (rev ?d)) < length (rev ?d)"
      by (metis calculation drop_all leI)
    ultimately have "last ?r = last (rev ?d)"
      by (metis last_drop)
    then have "last ?r = hd ?d" using d by (simp add: last_rev)
    with hr hd_d False show ?thesis
      by (simp add: strip_def hd_rev last_rev)
  qed
qed

lemma strip_id:
  "s = [] \<or> (\<not> is_space (hd s) \<and> \<not> is_space (last s)) \<Longrightarrow> strip s = s"
proof (cases "s = []")
  case True
  then show ?thesis by (simp add: strip_def)
next
  case False
  assume "s = [] \<or> (\<not> is_space (hd s) \<and> \<not> is_space (last s))"
  with False have e: "\<not> is_space (hd s)" "\<not> is_space (last s)" by auto
  from False e(1) have 1: "dropWhile is_space s = s" by (cases s) auto
  from False e(2) have "\<not> is_space (hd (rev s))" by (simp add: hd_rev)
  with False have 2: "dropWhile is_space (rev s) = rev s" by (cases "rev s") auto
  show ?thesis by (simp add: strip_def 1 2)
qed

lemma strip_strip: "strip (strip s) = strip s"
  by (rule strip_id) (rule strip_ends)

lemma title_from_Nil: "title_from b s = [] \<longleftrightarrow> s = []"
  by (cases s) auto

lemma hd_title_from: "s \<noteq> [] \<Longrightarrow> is_space (hd (title_from b s)) = is_space (hd s)"
  using space_chars by (cases s) auto

lemma last_title_from: "s \<noteq> [] \<Longrightarrow> is_space (last (title_from b s)) = is_space (last s)"
  using space_chars by (induction s arbitrary: b) (auto simp: title_from_Nil)

lemma strip_title: "strip s = s \<Longrightarrow> strip (title s) = title s"
proof -
  assume "strip s = s"
  then have "s = [] \<or> (\<not> is_space (hd s) \<and> \<not> is_space (last s))"
    using strip_ends [of s] by simp
  then show ?thesis
    unfolding title_def
    by (intro strip_id) (auto simp: title_from_Nil hd_title_from last_title_from)
qed

lemma upper_title_from: "upper (title_from b s) = upper s"
  using case_chars by (induction s arbitrary: b) (auto simp: upper_def)

lemma lower_title_from: "lower (title_from b s) = lower s"
  using case_chars by (induction s arbitrary: b) (auto simp: lower_def)

lemma title_from_idem: "title_from b (title_from b s) = title_from b s"
  using case_chars letter_chars by (induction s arbitrary: b) auto

lemma title_facts:
  "upper (title s) = upper s" "lower (title s) = lower s" "title (title s) = title s"
  by (simp_all add: title_def upper_title_from lower_title_from title_from_idem)

text \<open>
  A stage that finds under its key the value it would store leaves the record as it is.
  First the null rules and the state rule.
\<close>

lemma put_get_same: "get c k = v \<Longrightarrow> v \<noteq> JNull \<Longrightarrow> put k v c = c"
  by (auto simp: get_def put_def update_triv split: option.splits)

lemma null_step_id:
  "(\<And>s. get c k = JStr s \<Longrightarrow> lower (strip s) \<notin> set NULL_STRINGS) \<Longrightarrow> null_step c k = c"
  by (auto simp: null_step_def split: jval.splits)

lemma foldl_null_step_id:
  assumes "\<And>k s. k \<in> set ks \<Longrightarrow> get c k = JStr s \<Longrightarrow> lower (strip s) \<notin> set NULL_STRINGS"
  shows "foldl null_step c ks = c"
  using assms
proof (induction ks)
  case Nil
  then show ?case by simp
next
  case (Cons a ks)
  have "null_step c a = c"
    by (rule null_step_id) (use Cons.prems in auto)
  moreover have "foldl null_step c ks = c"
    by (rule Cons.IH) (use Cons.prems in auto)
  ultimately show ?case by simp
qed

lemma full_names_fixed:
  "list_all (\<lambda>full. strip full = full \<and> map_of STATE_ABBREV_TO_FULL (upper full) = None \<and>
       map_of STATE_ALIASES (lower full) = None \<and> lower full \<notin> set NULL_STRINGS \<and>
       full \<noteq> lower full \<and> full \<noteq> upper full)
     (map snd STATE_ABBREV_TO_FULL @ map snd STATE_ALIASES)"
  by code_simp

lemma full_name_fixed:
  assumes "map_of STATE_ABBREV_TO_FULL k = Some full \<or> map_of STATE_ALIASES k = Some full"
  shows "strip full = full" "map_of STATE_ABBREV_TO_FULL (upper full) = None"
    "map_of STATE_ALIASES (lower full) = None" "lower full \<notin> set NULL_STRINGS"
    "full \<noteq> lower full" "full \<noteq> upper full"
proof -
  from assms have "full \<in> set (map snd STATE_ABBREV_TO_FULL @ map snd STATE_ALIASES)"
    by (auto dest!: map_of_SomeD intro: rev_image_eqI)
  with full_names_fixed show "strip full = full" "map_of STATE_ABBREV_TO_FULL (upper full) = None"
    "map_of STATE_ALIASES (lower full) = None" "lower full \<notin> set NULL_STRINGS"
    "full \<noteq> lower full" "full \<noteq> upper full"
    unfolding list_all_iff by blast+
qed

lemma state_normalize_stable:
  assumes "get c' ''state_or_region'' = JStr x" "strip x = x"
    "map_of STATE_ABBREV_TO_FULL (upper x) = None" "map_of STATE_ALIASES (lower x) = None"
    "lower x \<notin> set NULL_STRINGS" "x = lower x \<or> x = upper x \<Longrightarrow> title x = x"
  shows "state_normalize c' = c'"
  using assms by (auto simp: state_normalize_def Let_def put_get_same)

text \<open>The value that the state rule stores is null or a string that the rule leaves alone.\<close>

lemma state_normalize_out:
  assumes "get c ''state_or_region'' = JStr st"
  shows "get (state_normalize c) ''state_or_region'' = JNull \<or>
    (\<exists>x. get (state_normalize c) ''state_or_region'' = JStr x \<and> strip x = x \<and>
       map_of STATE_ABBREV_TO_FULL (upper x) = None \<and> map_of STATE_ALIASES (lower x) = None \<and>
       lower x \<notin> set NULL_STRINGS \<and> (x = lower x \<or> x = upper x \<longrightarrow> title x = x))"
proof -
  let ?s = "strip st"
  show ?thesis
  proof (cases "map_of STATE_ABBREV_TO_FULL (upper ?s)")
    case (Some full)
    with assms have "get (state_normalize c) ''state_or_region'' = JStr full"
      by (simp add: state_normalize_def Let_def get_put)
    with full_name_fixed [of "upper ?s" full] Some show ?thesis by simp
  next
    case None
    show ?thesis
    proof (cases "map_of STATE_ALIASES (lower ?s)")
      case (Some full)
      with assms None have "get (state_normalize c) ''state_or_region'' = JStr full"
        by (simp add: state_normalize_def Let_def get_put)
      with full_name_fixed [of "lower ?s" full] Some show ?thesis by simp
    next
      case no_alias: None
      show ?thesis
      proof (cases "lower ?s \<in> set NULL_STRINGS")
        case True
        with assms None no_alias show ?thesis
          by (simp add: state_normalize_def Let_def get_put)
      next
        case False
        show ?thesis
        proof (cases "?s = lower ?s \<or> ?s = upper ?s")
          case True
          with assms None no_alias False
          have "get (state_normalize c) ''state_or_region'' = JStr (title ?s)"
            by (simp add: state_normalize_def Let_def get_put)
          moreover have "strip (title ?s) = title ?s"
            by (rule strip_title) (rule strip_strip)
          moreover have "title (title ?s) = title ?s"
            by (rule title_facts)
          moreover have "map_of STATE_ABBREV_TO_FULL (upper (title ?s)) = None"
            "map_of STATE_ALIASES (lower (title ?s)) = None"
            "lower (title ?s) \<notin> set NULL_STRINGS"
            using None no_alias False by (simp_all add: title_facts)
          ultimately show ?thesis by blast
        next
          case mixed: False
          with assms None no_alias False
          have "get (state_normalize c) ''state_or_region'' = JStr ?s"
            by (simp add: state_normalize_def Let_def get_put)
          then show ?thesis
            using None no_alias False mixed by (simp add: strip_strip)
        qed
      qed
    qed
  qed
qed

lemma state_normalize_non_str:
  "\<forall>s. get c ''state_or_region'' \<noteq> JStr s \<Longrightarrow> state_normalize c = c"
  by (cases "get c ''state_or_region''") (simp_all add: state_normalize_def)

lemma state_fix:
  assumes "get (state_normalize c) ''state_or_region'' = get c' ''state_or_region''"
  shows "state_normalize c' = c'"
proof (cases "\<exists>st. get c ''state_or_region'' = JStr st")
  case True
  then obtain st where JStr: "get c ''state_or_region'' = JStr st" by blast
  from state_normalize_out [OF JStr]
  show ?thesis
  proof
    assume "get (state_normalize c) ''state_or_region'' = JNull"
    with assms show ?thesis by (simp add: state_normalize_def)
  next
    assume "\<exists>x. get (state_normalize c) ''state_or_region'' = JStr x \<and> strip x = x \<and>
       map_of STATE_ABBREV_TO_FULL (upper x) = None \<and> map_of STATE_ALIASES (lower x) = None \<and>
       lower x \<notin> set NULL_STRINGS \<and> (x = lower x \<or> x = upper x \<longrightarrow> title x = x)"
    then obtain x where x: "get (state_normalize c) ''state_or_region'' = JStr x" "strip x = x"
       "map_of STATE_ABBREV_TO_FULL (upper x) = None" "map_of STATE_ALIASES (lower x) = None"
       "lower x \<notin> set NULL_STRINGS" "x = lower x \<or> x = upper x \<longrightarrow> title x = x"
      by blast
    from x(1) assms have "get c' ''state_or_region'' = JStr x" by simp
    then show ?thesis
      using x(2-6) by (intro state_normalize_stable) auto
  qed
next
  case False
  then have "state_normalize c = c" by (intro state_normalize_non_str) simp
  with assms False have "\<forall>s. get c' ''state_or_region'' \<noteq> JStr s" by simp
  then show ?thesis by (rule state_normalize_non_str)
qed

lemma state_out_not_null:
  assumes "get (state_normalize c) ''state_or_region'' = JStr x"
  shows "lower (strip x) \<notin> set NULL_STRINGS"
proof (cases "\<exists>st. get c ''state_or_region'' = JStr st")
  case True
  then obtain st where JStr: "get c ''state_or_region'' = JStr st" by blast
  from state_normalize_out [OF JStr] assms show ?thesis by auto
next
  case False
  then have "state_normalize c = c" by (intro state_normalize_non_str) simp
  with assms False show ?thesis by simp
qed

text \<open>The country, the two categories, the witness flag and the tone.\<close>

lemma country_fix:
  assumes "country_stage c = Inr c4"
    and "get c' ''state_or_region'' = get c ''state_or_region''"
    and "get c' ''country'' = get c4 ''country''"
  shows "country_stage c' = Inr c'"
proof -
  let ?v = "get c ''state_or_region''"
  show ?thesis
  proof (cases "truthy ?v \<and> (case ?v of JStr s \<Rightarrow> s \<in> set (map fst US_REGIONS) | _ \<Rightarrow> False)")
    case True
    with assms(1) have "hashable ?v" "c4 = put ''country'' (JStr ''USA'') c"
      by (auto simp: country_stage_def Let_def split: if_splits)
    then have "get c' ''country'' = JStr ''USA''"
      using assms(3) by (simp add: get_put)
    then have "put ''country'' (JStr ''USA'') c' = c'"
      by (rule put_get_same) simp
    with True \<open>hashable ?v\<close> assms(2) show ?thesis
      by (simp add: country_stage_def Let_def)
  next
    case False
    with assms(1,2) show ?thesis
      by (auto simp: country_stage_def Let_def split: if_splits)
  qed
qed

lemma country_out_not_null:
  assumes "country_stage c = Inr c4" "get c4 ''country'' = JStr x"
  shows "x = ''USA'' \<or> get c ''country'' = JStr x"
  using assms by (auto simp: country_stage_def Let_def get_put split: if_splits)

lemma usa_not_null: "lower (strip ''USA'') \<notin> set NULL_STRINGS"
  by code_simp

lemma call_type_fix:
  assumes "get c' ''call_type'' = JStr label" "label \<in> set VALID_ENTITY_LABELS"
  shows "call_type_stage c' = Inr c'"
proof -
  from assms(2) have "label \<noteq> []" using empty_not_valid by auto
  with assms show ?thesis by (simp add: call_type_stage_def Let_def)
qed

lemma secondary_stage_out:
  assumes "secondary_stage c = Inr c6"
  shows "get c6 ''call_type_secondary'' = JNull \<or>
         (\<exists>label. label \<in> set VALID_ENTITY_LABELS \<and> get c6 ''call_type_secondary'' = JStr label)"
proof (cases "get c ''call_type_secondary''")
  case (JStr s)
  show ?thesis
  proof (cases "s \<in> set VALID_ENTITY_LABELS")
    case True
    with JStr assms show ?thesis by (auto simp: secondary_stage_def Let_def)
  next
    case False
    show ?thesis
    proof (cases "match_label s")
      case None
      with JStr False assms show ?thesis
        by (auto simp: secondary_stage_def Let_def get_put)
    next
      case (Some label)
      then have "label \<in> set VALID_ENTITY_LABELS"
        by (auto simp: match_label_def find_Some_iff)
      with Some JStr False assms show ?thesis
        by (auto simp: secondary_stage_def Let_def get_put)
    qed
  qed
qed (use assms in \<open>auto simp: secondary_stage_def Let_def split: if_splits\<close>)

lemma secondary_fix:
  assumes "get c' ''call_type_secondary'' = JNull \<or>
         (\<exists>label. label \<in> set VALID_ENTITY_LABELS \<and> get c' ''call_type_secondary'' = JStr label)"
  shows "secondary_stage c' = Inr c'"
  using assms by (auto simp: secondary_stage_def Let_def)

lemma labels_not_null: "list_all (\<lambda>label. lower (strip label) \<notin> set NULL_STRINGS) VALID_ENTITY_LABELS"
  by code_simp

lemma witness_stage_out: "\<exists>b. get (witness_stage c) ''involves_other_witnesses'' = JBool b"
  by (cases "get c ''involves_other_witnesses''") (auto simp: witness_stage_def get_put)

lemma witness_fix:
  "get c' ''involves_other_witnesses'' = JBool b \<Longrightarrow> witness_stage c' = c'"
  by (simp add: witness_stage_def)

lemma tone_map_values: "list_all (\<lambda>(k, v). v \<in> set VALID_TONES) tone_map"
  by code_simp

lemma tones_fixed:
  "list_all (\<lambda>t. t \<noteq> [] \<and> replace_char CHR ''_'' ''-'' (lower (strip t)) = t) VALID_TONES"
  by code_simp

lemma default_tone: "''matter-of-fact'' \<in> set VALID_TONES"
  by (simp add: VALID_TONES_def)

lemma tone_stage_out:
  "\<exists>t. t \<in> set VALID_TONES \<and> get (tone_stage c) ''caller_emotional_tone'' = JStr t"
proof -
  let ?v = "get c ''caller_emotional_tone''"
  let ?tone = "if truthy ?v then ?v else JStr []"
  show ?thesis
  proof (cases "\<exists>s. ?tone = JStr s")
    case True
    then obtain s where s: "?tone = JStr s" by blast
    let ?t = "replace_char CHR ''_'' ''-'' (lower (strip s))"
    show ?thesis
    proof (cases "?t \<in> set VALID_TONES")
      case True
      with s show ?thesis
        by (auto simp: tone_stage_def Let_def get_put)
    next
      case False
      have "(case map_of tone_map ?t of Some x \<Rightarrow> x | None \<Rightarrow> ''matter-of-fact'') \<in> set VALID_TONES"
        using tone_map_values default_tone
        by (auto simp: list_all_iff split: option.splits dest!: map_of_SomeD)
      with s False show ?thesis
        by (auto simp: tone_stage_def Let_def get_put)
    qed
  next
    case False
    then have "get (tone_stage c) ''caller_emotional_tone'' = JStr ''matter-of-fact''"
      by (cases ?tone) (auto simp: tone_stage_def Let_def get_put)
    with default_tone show ?thesis by blast
  qed
qed

lemma tone_fix:
  assumes "get c' ''caller_emotional_tone'' = JStr t" "t \<in> set VALID_TONES"
  shows "tone_stage c' = c'"
proof -
  from assms(2) tones_fixed have t: "t \<noteq> []" "replace_char CHR ''_'' ''-'' (lower (strip t)) = t"
    by (auto simp: list_all_iff)
  have "put ''caller_emotional_tone'' (JStr t) c' = c'"
    using assms(1) by (rule put_get_same) simp
  with assms t show ?thesis
    by (simp add: tone_stage_def Let_def)
qed

text \<open>The date and the time.\<close>

lemma shape_prefix_append:
  "shape_prefix ps s \<Longrightarrow> length s = length ps \<Longrightarrow> shape_prefix qs t \<Longrightarrow>
   shape_prefix (ps @ qs) (s @ t)"
  by (induction ps s rule: shape_prefix.induct) auto

lemma shape_prefix_take:
  "shape_prefix (ps @ qs) s \<Longrightarrow>
   shape_prefix ps (take (length ps) s) \<and> length (take (length ps) s) = length ps"
  by (induction ps s rule: shape_prefix.induct) auto

lemma shape_prefix_length: "shape_prefix ps s \<Longrightarrow> length ps \<le> length s"
  by (induction ps s rule: shape_prefix.induct) auto

lemma shape_match_append:
  "shape_match ps s \<Longrightarrow> shape_match qs t \<Longrightarrow> shape_match (ps @ qs) (s @ t)"
  by (simp add: shape_match_def shape_prefix_append)

lemma re_search_Some:
  "re_search ps s = Some m \<Longrightarrow> shape_prefix ps m \<and> length m = length ps"
proof (induction s)
  case Nil
  then show ?case by (cases ps) (auto split: if_splits)
next
  case (Cons c cs)
  show ?case
  proof (cases "shape_prefix ps (c # cs)")
    case True
    with Cons.prems have m: "m = take (length ps) (c # cs)" by simp
    from True shape_prefix_take [of ps "[]" "c # cs"] shape_prefix_length [of ps "c # cs"]
    show ?thesis unfolding m by simp
  next
    case False
    with Cons show ?thesis by simp
  qed
qed

text \<open>A string of digits, hyphens and colons has no white space and no capital letter.\<close>

lemma plain_chars:
  "shape_prefix ps s \<Longrightarrow> length s = length ps \<Longrightarrow>
   \<forall>p\<in>set ps. p = D \<or> p = L CHR ''-'' \<or> p = L CHR '':'' \<Longrightarrow>
   list_all (\<lambda>c. \<not> is_space c \<and> lower_char c = c) s"
proof (induction ps s rule: shape_prefix.induct)
  case (3 ps c cs)
  then show ?case using digit_chars_plain by auto
next
  case (4 a ps c cs)
  have "\<not> is_space CHR ''-'' \<and> lower_char CHR ''-'' = CHR ''-'' \<and>
        \<not> is_space CHR '':'' \<and> lower_char CHR '':'' = CHR '':''"
    by code_simp
  with 4 show ?case by auto
qed auto

lemma plain_strip_lower:
  assumes "list_all (\<lambda>c. \<not> is_space c \<and> lower_char c = c) s"
  shows "strip s = s" "lower s = s"
proof -
  from assms have "s = [] \<or> (\<not> is_space (hd s) \<and> \<not> is_space (last s))"
    by (cases "s = []") (auto simp: list_all_iff)
  then show "strip s = s" by (rule strip_id)
  from assms show "lower s = s"
    unfolding lower_def by (intro map_idI) (auto simp: list_all_iff)
qed

lemma iso_plain:
  assumes "shape_match [D, D, D, D, L CHR ''-'', D, D, L CHR ''-'', D, D] y"
  shows "strip y = y" "lower y = y"
proof -
  from assms have "list_all (\<lambda>c. \<not> is_space c \<and> lower_char c = c) y"
    by (intro plain_chars [of "[D, D, D, D, L CHR ''-'', D, D, L CHR ''-'', D, D]"])
       (auto simp: shape_match_def)
  then show "strip y = y" "lower y = y" by (rule plain_strip_lower)+
qed

lemma hhmm_plain:
  assumes "hhmm_shape x"
  shows "strip x = x" "lower x = x"
proof -
  from assms have "list_all (\<lambda>c. \<not> is_space c \<and> lower_char c = c) x"
    by (intro plain_chars [of "[D, D, L CHR '':'', D, D]"])
       (auto simp: shape_match_def hhmm_shape_def)
  then show "strip x = x" "lower x = x" by (rule plain_strip_lower)+
qed

lemma null_strings_shapes:
  "list_all (\<lambda>n. \<not> hhmm_shape n \<and>
      \<not> shape_match [D, D, D, D, L CHR ''-'', D, D, L CHR ''-'', D, D] n) NULL_STRINGS"
  by code_simp

lemma date_tails:
  "shape_match [L CHR ''-'', D, D, L CHR ''-'', D, D] ''-01-01''"
  "shape_match [L CHR ''-'', D, D] ''-01''"
  "shape_match [D, D] ''19''" "shape_match [D, D] ''20''"
  by code_simp+

lemma decade4_group:
  "shape_prefix [D, D, D, D, L CHR ''s''] m \<Longrightarrow> shape_match [D, D, D, D] (take 4 m)"
  by (cases m; cases "tl m"; cases "tl (tl m)"; cases "tl (tl (tl m))")
     (auto simp: shape_match_def)

lemma decade2_group:
  "shape_prefix [D, D, L CHR ''s''] m \<Longrightarrow> shape_match [D, D] (take 2 m)"
  by (cases m; cases "tl m") (auto simp: shape_match_def)

lemma date_stage_out:
  assumes "get c ''date_of_event'' = JStr dv"
  shows "get (date_stage c) ''date_of_event'' = JNull \<or>
    (\<exists>y. get (date_stage c) ''date_of_event'' = JStr y \<and>
       shape_match [D, D, D, D, L CHR ''-'', D, D, L CHR ''-'', D, D] (strip y))"
proof -
  let ?iso = "[D, D, D, D, L CHR ''-'', D, D, L CHR ''-'', D, D]"
  let ?d = "strip dv"
  have built: "get (date_stage c) ''date_of_event'' = JStr y \<Longrightarrow> shape_match ?iso y \<Longrightarrow> ?thesis" for y
    using iso_plain(1) [of y] by auto
  consider (iso) "shape_match ?iso ?d"
    | (year) "\<not> shape_match ?iso ?d" "shape_match [D, D, D, D] ?d"
    | (month) "\<not> shape_match ?iso ?d" "\<not> shape_match [D, D, D, D] ?d"
        "shape_match [D, D, D, D, L CHR ''-'', D, D] ?d"
    | (other) "\<not> shape_match ?iso ?d" "\<not> shape_match [D, D, D, D] ?d"
        "\<not> shape_match [D, D, D, D, L CHR ''-'', D, D] ?d"
    by blast
  then show ?thesis
  proof cases
    case iso
    with assms have "date_stage c = c" by (simp add: date_stage_def)
    with assms iso show ?thesis by auto
  next
    case year
    with assms have "get (date_stage c) ''date_of_event'' = JStr (?d @ ''-01-01'')"
      by (simp add: date_stage_def get_put)
    moreover have "shape_match ?iso (?d @ ''-01-01'')"
      using shape_match_append [OF year(2) date_tails(1)] by simp
    ultimately show ?thesis by (rule built)
  next
    case month
    with assms have "get (date_stage c) ''date_of_event'' = JStr (?d @ ''-01'')"
      by (simp add: date_stage_def get_put)
    moreover have "shape_match ?iso (?d @ ''-01'')"
      using shape_match_append [OF month(3) date_tails(2)] by simp
    ultimately show ?thesis by (rule built)
  next
    case other
    show ?thesis
    proof (cases "re_search [D, D, D, D, L CHR ''s''] ?d")
      case (Some m)
      with assms other
      have "get (date_stage c) ''date_of_event'' = JStr (take 4 m @ ''-01-01'')"
        by (simp add: date_stage_def get_put)
      moreover have "shape_match [D, D, D, D] (take 4 m)"
        using re_search_Some [OF Some] by (intro decade4_group) simp
      then have "shape_match ?iso (take 4 m @ ''-01-01'')"
        using shape_match_append [OF _ date_tails(1)] by fastforce
      ultimately show ?thesis by (rule built)
    next
      case None
      show ?thesis
      proof (cases "re_search [D, D, L CHR ''s''] ?d")
        case no: None
        with assms other None show ?thesis
          by (simp add: date_stage_def get_put)
      next
        case (Some m)
        let ?century = "if int_of_digits (take 2 m) \<ge> 30 then ''19'' else ''20''"
        from assms other None Some
        have "get (date_stage c) ''date_of_event'' = JStr (?century @ take 2 m @ ''-01-01'')"
          by (simp add: date_stage_def get_put Let_def)
        moreover have "shape_match [D, D] (take 2 m)"
          using re_search_Some [OF Some] by (intro decade2_group) simp
        then have "shape_match ([D, D] @ [D, D] @ [L CHR ''-'', D, D, L CHR ''-'', D, D])
            (?century @ take 2 m @ ''-01-01'')"
          using date_tails by (intro shape_match_append) auto
        then have "shape_match ?iso (?century @ take 2 m @ ''-01-01'')" by simp
        ultimately show ?thesis by (rule built)
      qed
    qed
  qed
qed

lemma date_stage_non_str:
  "\<forall>s. get c ''date_of_event'' \<noteq> JStr s \<Longrightarrow> date_stage c = c"
  by (cases "get c ''date_of_event''") (simp_all add: date_stage_def)

lemma date_fix:
  assumes "get (date_stage c) ''date_of_event'' = get c' ''date_of_event''"
  shows "date_stage c' = c'"
proof (cases "\<exists>dv. get c ''date_of_event'' = JStr dv")
  case True
  then obtain dv where dv: "get c ''date_of_event'' = JStr dv" by blast
  from date_stage_out [OF dv] show ?thesis
  proof
    assume "get (date_stage c) ''date_of_event'' = JNull"
    with assms show ?thesis by (intro date_stage_non_str) simp
  next
    assume "\<exists>y. get (date_stage c) ''date_of_event'' = JStr y \<and>
       shape_match [D, D, D, D, L CHR ''-'', D, D, L CHR ''-'', D, D] (strip y)"
    with assms show ?thesis by (auto simp: date_stage_def)
  qed
next
  case False
  then have "date_stage c = c" by (intro date_stage_non_str) simp
  with assms False show ?thesis by (intro date_stage_non_str) simp
qed

lemma date_out_not_null:
  assumes "get (date_stage c) ''date_of_event'' = JStr y"
  shows "lower (strip y) \<notin> set NULL_STRINGS"
proof (cases "\<exists>dv. get c ''date_of_event'' = JStr dv")
  case True
  then obtain dv where dv: "get c ''date_of_event'' = JStr dv" by blast
  from date_stage_out [OF dv] assms
  have s: "shape_match [D, D, D, D, L CHR ''-'', D, D, L CHR ''-'', D, D] (strip y)" by auto
  then have "lower (strip y) = strip y" by (rule iso_plain)
  with s null_strings_shapes show ?thesis by (auto simp: list_all_iff)
next
  case False
  then have "date_stage c = c" by (intro date_stage_non_str) simp
  with assms False show ?thesis by simp
qed

lemma fmt02d_digits:
  assumes "is_digit a" "is_digit b"
  shows "fmt02d (int_of_digits [a, b]) = [a, b]"
proof -
  from assms digit_chars_plain have a: "digit_char (digit_val a) = a" "digit_val a < 10"
    and b: "digit_char (digit_val b) = b" "digit_val b < 10" by auto
  let ?n = "10 * digit_val a + digit_val b"
  have n: "int_of_digits [a, b] = ?n" by (simp add: int_of_digits_def)
  show ?thesis
  proof (cases "?n < 10")
    case True
    then have "digit_val a = 0" by simp
    with True a b show ?thesis
      by (simp add: n fmt02d_def str_nat.simps [of "digit_val b"]) (simp add: digit_char_def)
  next
    case False
    have "?n div 10 = digit_val a" "?n mod 10 = digit_val b" using b(2) by simp_all
    with False a b show ?thesis
      by (simp add: n fmt02d_def str_nat.simps [of ?n] str_nat.simps [of "digit_val a"])
  qed
qed

lemma sanitize_time_hhmm:
  assumes "hhmm_shape x"
  shows "sanitize_time x = JStr x"
proof -
  from assms obtain a b d e where x: "x = [a, b, CHR '':'', d, e]"
    and dg: "is_digit a" "is_digit b" "is_digit d" "is_digit e"
    using shape_match_hhmm [of x] by (auto simp: hhmm_shape_def)
  have tv: "lower (strip x) = x" using hhmm_plain [OF assms] by simp
  have m: "shape_match [D, D, L CHR '':'', D, D] x"
    using assms by (simp add: hhmm_shape_def)
  have "sanitize_time x = JStr (fmt02d (int_of_digits [a, b]) @ '':'' @ [d, e])"
    unfolding sanitize_time_def tv Let_def using m dg
    by (simp add: x is_digit_not_colon)
  with fmt02d_digits [OF dg(1,2)] show ?thesis by (simp add: x)
qed

lemma time_fix:
  assumes "time_shaped (get c' ''time_of_event'')"
  shows "time_stage c' = c'"
proof (cases "get c' ''time_of_event''")
  case (JStr x)
  with assms have "hhmm_shape x" by (simp add: time_shaped_def)
  then have "sanitize_time x = JStr x" by (rule sanitize_time_hhmm)
  moreover have "put ''time_of_event'' (JStr x) c' = c'"
    using JStr by (rule put_get_same) simp
  ultimately show ?thesis using JStr by (simp add: time_stage_def)
qed (simp_all add: time_stage_def)

lemma time_shaped_not_null:
  assumes "time_shaped (JStr x)"
  shows "lower (strip x) \<notin> set NULL_STRINGS"
proof -
  from assms have h: "hhmm_shape x" by (simp add: time_shaped_def)
  with hhmm_plain [OF h] null_strings_shapes show ?thesis by (auto simp: list_all_iff)
qed

text \<open>The values of a sanitized record, key by key.\<close>

lemma get_null_normalize_same:
  "k \<in> set null_keys \<Longrightarrow> get (null_normalize c) k = get (null_step c k) k"
  unfolding null_normalize_def
  by (rule get_foldl_null_step_same) (simp_all add: null_keys_def)

lemma null_step_out_not_null:
  "get (null_step c k) k = JStr s \<Longrightarrow> lower (strip s) \<notin> set NULL_STRINGS"
  by (auto simp: get_null_step_same split: jval.splits if_splits)

lemma tail_frame:
  "k \<notin> {''date_of_event'', ''time_of_event'', ''involves_other_witnesses'',
         ''caller_emotional_tone''} \<Longrightarrow>
   get (tone_stage (witness_stage (time_stage (date_stage c)))) k = get c k"
  by (simp add: get_tone_stage_other get_witness_stage_other get_time_stage_other
      get_date_stage_other)

text \<open>
  On a record of ASCII text, and apart from the overflow of the hour, a second pass of the
  sanitizer changes nothing: every stage finds its own output.
\<close>

lemma sanitize_call_idempotent:
  assumes san: "sanitize_call c = Inr c1"
    and asc: "ascii_record c"
    and no: "\<not> hour12_overflow (get c ''time_of_event'')"
  shows "sanitize_call c1 = Inr c1"
proof -
  let ?c0 = "null_normalize c"
  let ?c2 = "name_normalize ?c0"
  let ?c3 = "state_normalize ?c2"
  from san obtain c4 c5 c6 where st:
    "country_stage ?c3 = Inr c4" "call_type_stage c4 = Inr c5" "secondary_stage c5 = Inr c6"
    "c1 = tone_stage (witness_stage (time_stage (date_stage c6)))"
    by (rule sanitize_call_stages)
  let ?c7 = "date_stage c6"
  let ?c8 = "time_stage ?c7"
  let ?c9 = "witness_stage ?c8"
  note f4 = get_country_stage_other [OF st(1)]
  note f5 = get_call_type_stage_other [OF st(2)]
  note f6 = get_secondary_stage_other [OF st(3)]
  have mid: "k \<notin> {''country'', ''call_type'', ''call_type_secondary'', ''date_of_event'',
      ''time_of_event'', ''involves_other_witnesses'', ''caller_emotional_tone''} \<Longrightarrow>
      get c1 k = get ?c3 k" for k
    by (simp add: st(4) tail_frame f4 f5 f6)
  have v_state: "get c1 ''state_or_region'' = get ?c3 ''state_or_region''"
    by (rule mid) simp
  have v_country: "get c1 ''country'' = get c4 ''country''"
    by (simp add: st(4) tail_frame f5 f6)
  have v_ct: "get c1 ''call_type'' = get c5 ''call_type''"
    by (simp add: st(4) tail_frame f6)
  have v_ct2: "get c1 ''call_type_secondary'' = get c6 ''call_type_secondary''"
    by (simp add: st(4) tail_frame)
  have v_date: "get c1 ''date_of_event'' = get ?c7 ''date_of_event''"
    by (simp add: st(4) get_tone_stage_other get_witness_stage_other get_time_stage_other)
  have v_wit: "get c1 ''involves_other_witnesses'' = get ?c9 ''involves_other_witnesses''"
    by (simp add: st(4) get_tone_stage_other)
  have v_plain: "get c1 k = get (null_step c k) k"
    if k: "k \<in> set null_keys"
      and ne: "k \<noteq> ''state_or_region''" "k \<noteq> ''country''" "k \<noteq> ''call_type_secondary''"
        "k \<noteq> ''date_of_event''" "k \<noteq> ''time_of_event''" "k \<noteq> ''call_type''"
        "k \<noteq> ''involves_other_witnesses''" "k \<noteq> ''caller_emotional_tone''"
        "k \<noteq> ''caller_name''" for k
  proof -
    have "get c1 k = get ?c3 k" by (rule mid) (simp add: ne)
    also have "\<dots> = get ?c0 k"
      by (simp add: get_state_normalize_other get_name_normalize_other ne)
    also have "\<dots> = get (null_step c k) k"
      using k by (rule get_null_normalize_same)
    finally show ?thesis .
  qed
  have v_name: "get c1 ''caller_name'' = get (null_step ?c0 ''caller_name'') ''caller_name''"
  proof -
    have "get c1 ''caller_name'' = get ?c3 ''caller_name''" by (rule mid) simp
    then show ?thesis by (simp add: get_state_normalize_other name_normalize_def)
  qed
  have v_time: "case get c ''time_of_event'' of
           JStr time_val \<Rightarrow> time_shaped (get c1 ''time_of_event'')
         | v \<Rightarrow> get c1 ''time_of_event'' = v"
    using san no by (rule time_after_sanitize)
  have time_ok: "time_shaped (get c1 ''time_of_event'') \<or>
      (\<forall>s. get c1 ''time_of_event'' \<noteq> JStr s)"
    using v_time by (cases "get c ''time_of_event''") auto

  have not_null: "lower (strip s) \<notin> set NULL_STRINGS"
    if k: "k \<in> set null_keys" and g: "get c1 k = JStr s" for k s
  proof -
    from k have "k = ''state_or_region'' \<or> k = ''city'' \<or> k = ''country'' \<or>
        k = ''call_type_secondary'' \<or> k = ''date_of_event'' \<or> k = ''time_of_event'' \<or>
        k = ''setting'' \<or> k = ''derek_commentary'' \<or> k = ''caller_intro_snippet''"
      unfolding null_keys_def by (simp only: set_simps insert_iff empty_iff simp_thms)
    then show ?thesis
    proof (elim disjE)
      assume e: "k = ''state_or_region''"
      from g v_state have "get ?c3 ''state_or_region'' = JStr s" unfolding e by simp
      then show ?thesis by (rule state_out_not_null)
    next
      assume e: "k = ''country''"
      from g v_country have "get c4 ''country'' = JStr s" unfolding e by simp
      from country_out_not_null [OF st(1) this] show ?thesis
      proof
        assume "s = ''USA''"
        then show ?thesis using usa_not_null by simp
      next
        assume "get ?c3 ''country'' = JStr s"
        then have "get (null_step c ''country'') ''country'' = JStr s"
          by (simp add: get_state_normalize_other get_name_normalize_other
              get_null_normalize_same null_keys_def)
        then show ?thesis by (rule null_step_out_not_null)
      qed
    next
      assume e: "k = ''call_type_secondary''"
      from g v_ct2 secondary_stage_out [OF st(3)] labels_not_null show ?thesis
        unfolding e by (auto simp: list_all_iff)
    next
      assume e: "k = ''date_of_event''"
      from g v_date have "get ?c7 ''date_of_event'' = JStr s" unfolding e by simp
      then show ?thesis by (rule date_out_not_null)
    next
      assume e: "k = ''time_of_event''"
      from g time_ok have "time_shaped (JStr s)" unfolding e by auto
      then show ?thesis by (rule time_shaped_not_null)
    next
      assume e: "k = ''city''"
      have "get c1 ''city'' = get (null_step c ''city'') ''city''"
        by (rule v_plain) (simp_all add: null_keys_def)
      with g have "\<exists>k. get (null_step c k) k = JStr s" unfolding e by auto
      then show ?thesis by (auto dest: null_step_out_not_null)
    next
      assume e: "k = ''setting''"
      have "get c1 ''setting'' = get (null_step c ''setting'') ''setting''"
        by (rule v_plain) (simp_all add: null_keys_def)
      with g have "\<exists>k. get (null_step c k) k = JStr s" unfolding e by auto
      then show ?thesis by (auto dest: null_step_out_not_null)
    next
      assume e: "k = ''derek_commentary''"
      have "get c1 ''derek_commentary'' = get (null_step c ''derek_commentary'') ''derek_commentary''"
        by (rule v_plain) (simp_all add: null_keys_def)
      with g have "\<exists>k. get (null_step c k) k = JStr s" unfolding e by auto
      then show ?thesis by (auto dest: null_step_out_not_null)
    next
      assume e: "k = ''caller_intro_snippet''"
      have "get c1 ''caller_intro_snippet'' =
          get (null_step c ''caller_intro_snippet'') ''caller_intro_snippet''"
        by (rule v_plain) (simp_all add: null_keys_def)
      with g have "\<exists>k. get (null_step c k) k = JStr s" unfolding e by auto
      then show ?thesis by (auto dest: null_step_out_not_null)
    qed
  qed
  have s1: "null_normalize c1 = c1"
    unfolding null_normalize_def by (rule foldl_null_step_id) (rule not_null)
  have s2: "name_normalize c1 = c1"
    unfolding name_normalize_def
  proof (rule null_step_id)
    fix s
    assume "get c1 ''caller_name'' = JStr s"
    with v_name have "get (null_step ?c0 ''caller_name'') ''caller_name'' = JStr s" by simp
    then show "lower (strip s) \<notin> set NULL_STRINGS" by (rule null_step_out_not_null)
  qed
  have s3: "state_normalize c1 = c1"
    by (rule state_fix [of ?c2]) (simp add: v_state)
  have s4: "country_stage c1 = Inr c1"
    using st(1) v_state v_country by (rule country_fix)
  have s5: "call_type_stage c1 = Inr c1"
  proof -
    from call_type_stage_result [OF st(2)] obtain label
      where "label \<in> set VALID_ENTITY_LABELS" "get c5 ''call_type'' = JStr label" by blast
    with v_ct show ?thesis by (intro call_type_fix [of c1 label]) simp_all
  qed
  have s6: "secondary_stage c1 = Inr c1"
    using secondary_stage_out [OF st(3)] v_ct2 by (intro secondary_fix) simp
  have s7: "date_stage c1 = c1"
    by (rule date_fix [of c6]) (simp add: v_date)
  have s8: "time_stage c1 = c1"
    using time_ok
  proof
    assume "time_shaped (get c1 ''time_of_event'')"
    then show ?thesis by (rule time_fix)
  next
    assume "\<forall>s. get c1 ''time_of_event'' \<noteq> JStr s"
    then show ?thesis by (cases "get c1 ''time_of_event''") (simp_all add: time_stage_def)
  qed
  have s9: "witness_stage c1 = c1"
  proof -
    from witness_stage_out [of ?c8] obtain b
      where "get ?c9 ''involves_other_witnesses'' = JBool b" by blast
    with v_wit show ?thesis by (intro witness_fix [of c1 b]) simp
  qed
  have s10: "tone_stage c1 = c1"
  proof -
    from tone_stage_out [of ?c9] obtain t
      where "t \<in> set VALID_TONES" "get (tone_stage ?c9) ''caller_emotional_tone'' = JStr t"
      by blast
    then show ?thesis unfolding st(4) by (intro tone_fix [of _ t]) simp_all
  qed
  show ?thesis
    by (simp add: sanitize_call_def s1 s2 s3 s4 s5 s6 s7 s8 s9 s10)
qed

end
